theory Spec2Isabelle
  imports Main
begin

section \<open>The result cache of the get helper\<close>

text \<open>
  Source: \<^verbatim>\<open>src/core/frontend/helpers/get.js\<close>.

  JavaScript objects used as dictionaries (\<^verbatim>\<open>cachedResults\<close>, its inner objects) are maps
  from property keys to values. The keys the helper uses are controller aliases (or the key
  \<^verbatim>\<open>undefined\<close>), the two action names and JSON texts; none of them names a property that
  an object inherits from \<^verbatim>\<open>Object.prototype\<close>, so a property read is a lookup among the
  object's own properties. The one read with a key chosen by the template author,
  \<^verbatim>\<open>RESOURCES[resource]\<close>, is modelled with the inherited properties, see \<open>RESOURCES\<close>.
\<close>

text \<open>What is thrown, or what a promise is rejected with: an error object with its message, or
  \<^verbatim>\<open>null\<close> or \<^verbatim>\<open>undefined\<close>. Reading \<^verbatim>\<open>err.message\<close> of the latter throws.\<close>

datatype error = Error string | Nullish

definition TypeError :: error where
  "TypeError = Error ''TypeError''"

fun message :: "error \<Rightarrow> error + string" where
  "message (Error m) = Inr m"
| "message Nullish = Inl TypeError"

text \<open>\<^verbatim>\<open>const action = isBrowse(apiOptions) ? 'browse' : 'read'\<close>: the two actions, and the
  strings they are as property keys.\<close>

datatype action = Browse | Read

fun action_name :: "action \<Rightarrow> string" where
  "action_name Browse = ''browse''"
| "action_name Read = ''read''"

text \<open>A promise returned by \<^verbatim>\<open>controller[action](apiOptions)\<close> is pending (\<open>None\<close>) or settled.\<close>

datatype 'r outcome = Fulfilled 'r | Rejected error

text \<open>
  The two closures that \<open>returnCacheAndStartRefetch\<close> registers with
  \<^verbatim>\<open>promise.then(...)\<close>. Either has one argument only, so it runs when the promise is
  fulfilled and does not run when it is rejected.
  \<^item> \<open>RefreshDone cn k\<close> is the closure of lines 203-206, which writes to \<^verbatim>\<open>cache\<close>, the
    object read from \<^verbatim>\<open>cachedResults[cn][k]\<close>. A property of \<^verbatim>\<open>cachedResults[cn]\<close> is
    assigned only while it is undefined (lines 192-194 and 197-212), so that object stays the
    one stored under \<open>cn\<close> and \<open>k\<close>, and the closure is identified by these keys.
  \<^item> \<open>ColdDone cn k\<close> is the closure of lines 217-219, which reads
    \<^verbatim>\<open>cachedResults[cn][k]\<close> when it runs.
\<close>

datatype callback = ColdDone string string | RefreshDone string string

fun callback_key :: "callback \<Rightarrow> string \<times> string" where
  "callback_key (ColdDone cn k) = (cn, k)"
| "callback_key (RefreshDone cn k) = (cn, k)"

fun is_refresh :: "callback \<Rightarrow> bool" where
  "is_refresh (ColdDone cn k) = False"
| "is_refresh (RefreshDone cn k) = True"

text \<open>One call \<^verbatim>\<open>controller[action](apiOptions)\<close>: what was called, the state of the promise
  it returned, the closure registered on that promise, and whether that closure has run. A
  promise is named by the position of its fetch in the list of all fetches issued.\<close>

record ('o, 'r) fetch =
  f_controller :: string
  f_action :: action
  f_apiOptions :: 'o
  f_outcome :: "'r outcome option"
  f_then :: callback
  f_called :: bool

text \<open>A cache entry \<^verbatim>\<open>{isFetching, promise}\<close>. The object \<^verbatim>\<open>{}\<close> stored under an action
  name (line 193) has neither property: \<open>isFetching\<close> is only ever tested for truthiness, so
  undefined is \<open>False\<close>, and an undefined \<open>promise\<close> is \<open>None\<close>.\<close>

record entry =
  isFetching :: bool
  promise :: "nat option"

definition empty_object :: entry where
  "empty_object = \<lparr>isFetching = False, promise = None\<rparr>"

record ('o, 'r) state =
  cachedResults :: "string \<rightharpoonup> (string \<rightharpoonup> entry)"
  fetches :: "('o, 'r) fetch list"

text \<open>\<^verbatim>\<open>const cachedResults = {}\<close>, and no fetch issued yet.\<close>

definition init_state :: "('o, 'r) state" where
  "init_state = \<lparr>cachedResults = Map.empty, fetches = []\<rparr>"

text \<open>\<^verbatim>\<open>cachedResults[cn][k]\<close> read and assigned. Every assignment in the source follows a
  read that found \<^verbatim>\<open>cachedResults[cn]\<close>, so the \<open>None\<close> case of \<open>store\<close> is never taken.\<close>

definition lookup :: "('o, 'r) state \<Rightarrow> string \<Rightarrow> string \<Rightarrow> entry option" where
  "lookup s cn k = (case cachedResults s cn of None \<Rightarrow> None | Some obj \<Rightarrow> obj k)"

definition store :: "string \<Rightarrow> string \<Rightarrow> entry \<Rightarrow> ('o, 'r) state \<Rightarrow> ('o, 'r) state" where
  "store cn k e s =
     (case cachedResults s cn of
        None \<Rightarrow> s
      | Some obj \<Rightarrow> s\<lparr>cachedResults := (cachedResults s)(cn \<mapsto> obj(k \<mapsto> e))\<rparr>)"

definition new_fetch :: "string \<Rightarrow> action \<Rightarrow> 'o \<Rightarrow> callback \<Rightarrow> ('o, 'r) fetch" where
  "new_fetch c a opts cb =
     \<lparr>f_controller = c, f_action = a, f_apiOptions = opts, f_outcome = None, f_then = cb,
       f_called = False\<rparr>"

text \<open>
  \<open>returnCacheAndStartRefetch\<close>, lines 188-222; \<open>ensure_objects\<close> is its lines 189-194,
  the two objects created when they are missing. \<open>stringify\<close> is \<^verbatim>\<open>JSON.stringify\<close>. The
  controller is \<open>None\<close> when \<^verbatim>\<open>api[apiVersion][controllerName]\<close> is undefined; calling
  \<^verbatim>\<open>controller[action]\<close> then throws, after the assignments made so far. The result is the
  value returned (\<open>None\<close> is undefined) or the error thrown, and the state left behind.
\<close>

definition ensure_objects :: "string \<Rightarrow> action \<Rightarrow> ('o, 'r) state \<Rightarrow> ('o, 'r) state" where
  "ensure_objects controllerName action s =
     (let s1 = (if cachedResults s controllerName = None
                then s\<lparr>cachedResults := (cachedResults s)(controllerName \<mapsto> Map.empty)\<rparr>
                else s)
      in if lookup s1 controllerName (action_name action) = None
         then store controllerName (action_name action) empty_object s1
         else s1)"

definition returnCacheAndStartRefetch ::
  "('o \<Rightarrow> string) \<Rightarrow> string option \<Rightarrow> action \<Rightarrow> 'o \<Rightarrow> string \<Rightarrow> ('o, 'r) state
     \<Rightarrow> (error + nat option) \<times> ('o, 'r) state" where
  "returnCacheAndStartRefetch stringify controller action apiOptions controllerName s =
     (let s2 = ensure_objects controllerName action s;
          stringApiOptions = stringify apiOptions
      in case lookup s2 controllerName stringApiOptions of
           Some cache \<Rightarrow>
             if \<not> isFetching cache then
               (let s3 = store controllerName stringApiOptions (cache\<lparr>isFetching := True\<rparr>) s2
                in case controller of
                     None \<Rightarrow> (Inl TypeError, s3)
                   | Some c \<Rightarrow>
                       (Inr (promise cache),
                        s3\<lparr>fetches := fetches s3 @
                              [new_fetch c action apiOptions
                                 (RefreshDone controllerName stringApiOptions)]\<rparr>))
             else (Inr (promise cache), s2)
         | None \<Rightarrow>
             (case controller of
                None \<Rightarrow> (Inl TypeError, s2)
              | Some c \<Rightarrow>
                  (let p = length (fetches s2);
                       s3 = s2\<lparr>fetches := fetches s2 @
                                 [new_fetch c action apiOptions
                                    (ColdDone controllerName stringApiOptions)]\<rparr>
                   in (Inr (Some p),
                       store controllerName stringApiOptions
                         \<lparr>isFetching = True, promise = Some p\<rparr> s3))))"

text \<open>
  The closures, run with the promise \<open>p\<close> they were registered on.
  Lines 204-205: \<^verbatim>\<open>cache.promise = promise; cache.isFetching = false\<close>.
  Line 218: \<^verbatim>\<open>cachedResults[controllerName][stringApiOptions].isFetching = false\<close>.
\<close>

fun run_callback :: "nat \<Rightarrow> callback \<Rightarrow> ('o, 'r) state \<Rightarrow> ('o, 'r) state" where
  "run_callback p (RefreshDone cn k) s =
     (case lookup s cn k of
        None \<Rightarrow> s
      | Some cache \<Rightarrow> store cn k (cache\<lparr>promise := Some p, isFetching := False\<rparr>) s)"
| "run_callback p (ColdDone cn k) s =
     (case lookup s cn k of
        None \<Rightarrow> s
      | Some cache \<Rightarrow> store cn k (cache\<lparr>isFetching := False\<rparr>) s)"

text \<open>
  A pending promise settles once, fulfilled or rejected. The closure registered with
  \<^verbatim>\<open>then\<close> does not run at the settlement: it runs once, at some later turn of the event
  loop, if the promise was fulfilled, and never if it was rejected. In between, calls of
  \<open>returnCacheAndStartRefetch\<close> see the entry as the closure has not yet written it.
  \<open>resolve_promise\<close> and \<open>reject\<close> are the settlements, \<open>run_then\<close> is the run of the closure, and
  \<open>fulfil\<close> is a fulfilment whose closure runs before anything else happens.
\<close>

definition settle_promise :: "nat \<Rightarrow> 'r outcome \<Rightarrow> ('o, 'r) state \<Rightarrow> ('o, 'r) state" where
  "settle_promise p oc s = s\<lparr>fetches := (fetches s)[p := (fetches s ! p)\<lparr>f_outcome := Some oc\<rparr>]\<rparr>"

definition pending :: "('o, 'r) state \<Rightarrow> nat \<Rightarrow> bool" where
  "pending s p = (p < length (fetches s) \<and> f_outcome (fetches s ! p) = None)"

definition fulfilled :: "('o, 'r) state \<Rightarrow> nat \<Rightarrow> bool" where
  "fulfilled s p =
     (p < length (fetches s) \<and>
      (case f_outcome (fetches s ! p) of Some (Fulfilled r) \<Rightarrow> True | _ \<Rightarrow> False))"

definition rejected :: "('o, 'r) state \<Rightarrow> nat \<Rightarrow> bool" where
  "rejected s p =
     (p < length (fetches s) \<and>
      (case f_outcome (fetches s ! p) of Some (Rejected e) \<Rightarrow> True | _ \<Rightarrow> False))"

definition resolve_promise :: "nat \<Rightarrow> 'r \<Rightarrow> ('o, 'r) state \<Rightarrow> ('o, 'r) state" where
  "resolve_promise p r s = (if pending s p then settle_promise p (Fulfilled r) s else s)"

definition reject :: "nat \<Rightarrow> error \<Rightarrow> ('o, 'r) state \<Rightarrow> ('o, 'r) state" where
  "reject p e s = (if pending s p then settle_promise p (Rejected e) s else s)"

definition mark_called :: "nat \<Rightarrow> ('o, 'r) state \<Rightarrow> ('o, 'r) state" where
  "mark_called p s = s\<lparr>fetches := (fetches s)[p := (fetches s ! p)\<lparr>f_called := True\<rparr>]\<rparr>"

definition run_then :: "nat \<Rightarrow> ('o, 'r) state \<Rightarrow> ('o, 'r) state" where
  "run_then p s =
     (if fulfilled s p \<and> \<not> f_called (fetches s ! p)
      then run_callback p (f_then (fetches s ! p)) (mark_called p s)
      else s)"

definition fulfil :: "nat \<Rightarrow> 'r \<Rightarrow> ('o, 'r) state \<Rightarrow> ('o, 'r) state" where
  "fulfil p r s = run_then p (resolve_promise p r s)"

text \<open>What happens to the cache over time: calls of \<open>returnCacheAndStartRefetch\<close>,
  settlements of the promises it started and runs of their closures, in any order.
  \<open>Fulfil p r\<close> is \<open>Resolve p r\<close> followed at once by \<open>Then p\<close>.\<close>

datatype ('o, 'r) event =
    Call "string option" action 'o string
  | Resolve nat 'r
  | Then nat
  | Fulfil nat 'r
  | Reject nat error

fun step :: "('o \<Rightarrow> string) \<Rightarrow> ('o, 'r) event \<Rightarrow> ('o, 'r) state \<Rightarrow> ('o, 'r) state" where
  "step stringify (Call c a opts cn) s = snd (returnCacheAndStartRefetch stringify c a opts cn s)"
| "step stringify (Resolve p r) s = resolve_promise p r s"
| "step stringify (Then p) s = run_then p s"
| "step stringify (Fulfil p r) s = fulfil p r s"
| "step stringify (Reject p e) s = reject p e s"

definition run :: "('o \<Rightarrow> string) \<Rightarrow> ('o, 'r) event list \<Rightarrow> ('o, 'r) state \<Rightarrow> ('o, 'r) state" where
  "run stringify evs s = foldl (\<lambda>s ev. step stringify ev s) s evs"

text \<open>The closure registered on a promise, and whether it may still run: the promise has
  not been rejected and the closure has not run.\<close>

definition awaiting :: "('o, 'r) state \<Rightarrow> nat \<Rightarrow> bool" where
  "awaiting s p =
     (p < length (fetches s) \<and> \<not> f_called (fetches s ! p) \<and> \<not> rejected s p)"

definition then_of :: "('o, 'r) state \<Rightarrow> nat \<Rightarrow> callback" where
  "then_of s p = f_then (fetches s ! p)"

text \<open>
  What holds of every state the cache can be in:
  \<^item> a promise stored in an entry was issued for the key of that entry, and if a refresh
    issued it, it is fulfilled;
  \<^item> an entry that is not fetching holds no promise or a fulfilled one;
  \<^item> a promise whose closure may still run has its entry, which is fetching; the entry holds
    that very promise if the fetch is the first for the key, and no promise or a fulfilled
    one if it is a refresh;
  \<^item> two promises whose closures may still run belong to different entries;
  \<^item> a closure has run only if its promise was fulfilled.
\<close>

definition stored_ok :: "('o, 'r) state \<Rightarrow> string \<Rightarrow> string \<Rightarrow> nat \<Rightarrow> bool" where
  "stored_ok s cn k p =
     (p < length (fetches s) \<and> callback_key (then_of s p) = (cn, k) \<and>
      (is_refresh (then_of s p) \<longrightarrow> fulfilled s p))"

definition inv_stored :: "('o, 'r) state \<Rightarrow> bool" where
  "inv_stored s =
     (\<forall>cn k e p. lookup s cn k = Some e \<longrightarrow> promise e = Some p \<longrightarrow> stored_ok s cn k p)"

definition inv_idle :: "('o, 'r) state \<Rightarrow> bool" where
  "inv_idle s =
     (\<forall>cn k e p. lookup s cn k = Some e \<longrightarrow> \<not> isFetching e \<longrightarrow> promise e = Some p \<longrightarrow>
        fulfilled s p)"

definition entry_of :: "('o, 'r) state \<Rightarrow> nat \<Rightarrow> entry option" where
  "entry_of s p = lookup s (fst (callback_key (then_of s p))) (snd (callback_key (then_of s p)))"

definition inv_pending :: "('o, 'r) state \<Rightarrow> bool" where
  "inv_pending s =
     (\<forall>p. awaiting s p \<longrightarrow>
        (\<exists>e. entry_of s p = Some e \<and> isFetching e \<and>
             (if is_refresh (then_of s p) then (\<forall>q. promise e = Some q \<longrightarrow> fulfilled s q)
              else promise e = Some p)))"

definition inv_unique :: "('o, 'r) state \<Rightarrow> bool" where
  "inv_unique s =
     (\<forall>p q. awaiting s p \<longrightarrow> awaiting s q \<longrightarrow>
        callback_key (then_of s p) = callback_key (then_of s q) \<longrightarrow> p = q)"

definition inv_called :: "('o, 'r) state \<Rightarrow> bool" where
  "inv_called s =
     (\<forall>p. p < length (fetches s) \<longrightarrow> f_called (fetches s ! p) \<longrightarrow> fulfilled s p)"

definition cache_inv :: "('o, 'r) state \<Rightarrow> bool" where
  "cache_inv s = (inv_stored s \<and> inv_idle s \<and> inv_pending s \<and> inv_unique s \<and> inv_called s)"

text \<open>Whether an event runs the closure of the promise \<open>p\<close>.\<close>

fun runs_then :: "nat \<Rightarrow> ('o, 'r) event \<Rightarrow> bool" where
  "runs_then p (Fulfil q r) = (q = p)"
| "runs_then p (Then q) = (q = p)"
| "runs_then p (Resolve q r) = False"
| "runs_then p (Reject q e) = False"
| "runs_then p (Call c a opts cn) = False"

text \<open>An entry that is fetching and holds \<open>x\<close> in its promise field, while no closure
  other than that of \<open>p\<close> may still run for its key.\<close>

definition waiting :: "('o, 'r) state \<Rightarrow> string \<Rightarrow> string \<Rightarrow> nat option \<Rightarrow> nat \<Rightarrow> bool" where
  "waiting s cn k x p =
     ((\<exists>e. lookup s cn k = Some e \<and> isFetching e \<and> promise e = x) \<and>
      (\<forall>q. awaiting s q \<longrightarrow> callback_key (then_of s q) = (cn, k) \<longrightarrow> q = p))"


section \<open>The get helper\<close>

text \<open>The values of the hash of a block helper, as far as the helper looks at them, and their
  truthiness. A hash value comes from a literal or from a path of the template context, which
  may hold a function.\<close>

datatype jsval = JUndefined | JNull | JBool bool | JNumber int | JString string | JFunction

fun truthy :: "jsval \<Rightarrow> bool" where
  "truthy JUndefined = False"
| "truthy JNull = False"
| "truthy (JBool b) = b"
| "truthy (JNumber n) = (n \<noteq> 0)"
| "truthy (JString v) = (v \<noteq> [])"
| "truthy JFunction = True"

text \<open>\<^verbatim>\<open>options.hash\<close>: the three properties the helper reads, and the others, which it only
  serializes and passes to the API.\<close>

record hash =
  hash_id :: jsval
  hash_slug :: jsval
  hash_filter :: jsval
  hash_others :: "(string \<times> jsval) list"

text \<open>\<^verbatim>\<open>data\<close>, the frame created from \<^verbatim>\<open>options.data\<close>: the \<^verbatim>\<open>error\<close> property the helper
  assigns, and \<^verbatim>\<open>root._locals.apiVersion\<close>, which it reads.\<close>

record data =
  data_error :: "string option"
  data_apiVersion :: "string option"

text \<open>\<^verbatim>\<open>options\<close>: the block function \<^verbatim>\<open>fn\<close>, absent when the helper is not called as a
  block, and \<^verbatim>\<open>inverse\<close>. Both render a template and may throw. The block parameters are
  computed from the result, so \<open>fn\<close> is a function of the result and the frame.\<close>

record 'r options =
  opt_fn :: "('r \<Rightarrow> data \<Rightarrow> error + string) option"
  opt_inverse :: "data \<Rightarrow> error + string"
  opt_hash :: hash
  opt_data :: data

text \<open>What the helper requires from \<^verbatim>\<open>../services/proxy\<close> and the libraries: the API
  controllers by version and name, \<^verbatim>\<open>i18n.t\<close>, \<open>resolvePaths\<close> on the current globals and
  context (lines 57-86; \<^verbatim>\<open>jsonpath.query\<close> may throw), \<^verbatim>\<open>JSON.stringify\<close>, and what the
  handler of \<^verbatim>\<open>.finally\<close> (lines 166-181) throws, if it does: it reads the clock and the
  configuration and calls \<^verbatim>\<open>logging[logLevel]\<close>, which is no function when the configured
  level is no method of the logger. The other calls of the logger change nothing the helper
  returns and are left out.\<close>

record env =
  api :: "string \<rightharpoonup> (string \<rightharpoonup> string)"
  i18n_t :: "string \<Rightarrow> string"
  resolvePaths :: "string \<Rightarrow> error + string"
  stringify_hash :: "hash \<Rightarrow> string"
  slow_log :: "error option"

definition RESOURCES :: "(string \<times> string) list" where
  "RESOURCES =
     [(''posts'', ''postsPublic''), (''tags'', ''tagsPublic''),
      (''pages'', ''pagesPublic''), (''authors'', ''authorsPublic'')]"

text \<open>\<open>RESOURCES\<close> is an object literal, so \<^verbatim>\<open>RESOURCES[resource]\<close> also finds the properties
  inherited from \<^verbatim>\<open>Object.prototype\<close>: functions, and the prototype itself under
  \<^verbatim>\<open>__proto__\<close>. All of them are truthy and none has a property \<^verbatim>\<open>alias\<close>.\<close>

definition Object_prototype :: "string list" where
  "Object_prototype =
     [''constructor'', ''__defineGetter__'', ''__defineSetter__'', ''hasOwnProperty'',
      ''__lookupGetter__'', ''__lookupSetter__'', ''isPrototypeOf'', ''propertyIsEnumerable'',
      ''toString'', ''valueOf'', ''__proto__'', ''toLocaleString'']"

datatype property = Undefined | Resource string | Inherited

definition RESOURCES_get :: "string \<Rightarrow> property" where
  "RESOURCES_get resource =
     (case map_of RESOURCES resource of
        Some a \<Rightarrow> Resource a
      | None \<Rightarrow> if resource \<in> set Object_prototype then Inherited else Undefined)"

text \<open>\<^verbatim>\<open>RESOURCES[resource].alias\<close>, for a property that was found.\<close>

fun alias_of :: "property \<Rightarrow> string option" where
  "alias_of (Resource a) = Some a"
| "alias_of Inherited = None"
| "alias_of Undefined = None"

text \<open>A value used as a property key: undefined is the key \<^verbatim>\<open>undefined\<close>.\<close>

fun property_key :: "string option \<Rightarrow> string" where
  "property_key None = ''undefined''"
| "property_key (Some k) = k"

definition isBrowse :: "hash \<Rightarrow> bool" where
  "isBrowse options = (if truthy (hash_id options) \<or> truthy (hash_slug options) then False else True)"

definition parseOptions :: "(string \<Rightarrow> error + string) \<Rightarrow> hash \<Rightarrow> error + hash" where
  "parseOptions resolve options =
     (case hash_filter options of
        JString v \<Rightarrow>
          (case resolve v of
             Inl e \<Rightarrow> Inl e
           | Inr v' \<Rightarrow> Inr (options\<lparr>hash_filter := JString v'\<rparr>))
      | _ \<Rightarrow> Inr options)"

text \<open>
  What \<open>get\<close> returns: \<^verbatim>\<open>Promise.resolve_promise(v)\<close>, or the promise
  \<^verbatim>\<open>p.then(success).catch(error).finally(...)\<close> on the promise \<open>p\<close> that
  \<open>returnCacheAndStartRefetch\<close> returned, with the frame the handlers close over.
\<close>

datatype helper_promise = Resolved "string option" | Chained nat data

text \<open>
  \<open>get\<close>, lines 110-182: the value returned or the error thrown, and the state of the
  cache. The result of a fetch is an object or, as \<open>None\<close>, \<^verbatim>\<open>null\<close> or \<^verbatim>\<open>undefined\<close>. In \<^verbatim>\<open>api[apiVersion][controllerName]\<close> the read of a property of undefined throws,
  and so does \<^verbatim>\<open>.then\<close> on an undefined return value.
\<close>

definition get ::
  "env \<Rightarrow> string \<Rightarrow> 'r options \<Rightarrow> (hash, 'r option) state
     \<Rightarrow> (error + helper_promise) \<times> (hash, 'r option) state" where
  "get env resource options s =
     (let dat = opt_data options;
          apiVersion = data_apiVersion dat;
          apiOptions = opt_hash options
      in case opt_fn options of
           None \<Rightarrow> (Inr (Resolved None), s)
         | Some fn \<Rightarrow>
             (case RESOURCES_get resource of
                Undefined \<Rightarrow>
                  (case opt_inverse options
                          (dat\<lparr>data_error :=
                                 Some (i18n_t env ''warnings.helpers.get.invalidResource'')\<rparr>) of
                     Inl e \<Rightarrow> (Inl e, s)
                   | Inr html \<Rightarrow> (Inr (Resolved (Some html)), s))
              | found \<Rightarrow>
                  (let controllerName = alias_of found
                   in case api env (property_key apiVersion) of
                        None \<Rightarrow> (Inl TypeError, s)
                      | Some controllers \<Rightarrow>
                          (let controller = controllers (property_key controllerName);
                               action = (if isBrowse apiOptions then Browse else Read)
                           in case parseOptions (resolvePaths env) apiOptions of
                                Inl e \<Rightarrow> (Inl e, s)
                              | Inr apiOptions' \<Rightarrow>
                                  (case returnCacheAndStartRefetch (stringify_hash env) controller
                                          action apiOptions' (property_key controllerName) s of
                                     (Inl e, s') \<Rightarrow> (Inl e, s')
                                   | (Inr None, s') \<Rightarrow> (Inl TypeError, s')
                                   | (Inr (Some p), s') \<Rightarrow> (Inr (Chained p dat), s'))))))"

text \<open>
  How the promise that \<open>get\<close> returned settles, given how the promise of the cache settles.
  \<open>then_success\<close> is \<^verbatim>\<open>.then(function success(result) {...})\<close>, lines 143-161: it reads
  \<^verbatim>\<open>result[resource]\<close>, which throws when the result is \<^verbatim>\<open>null\<close> or \<^verbatim>\<open>undefined\<close>, and
  calls the block function. \<open>catch_error\<close> is \<^verbatim>\<open>.catch(function error(err) {...})\<close>, lines
  162-165: it reads \<^verbatim>\<open>err.message\<close> and calls \<^verbatim>\<open>options.inverse\<close>. \<open>finally_log\<close> is
  \<^verbatim>\<open>.finally(...)\<close>, lines 166-181: the promise settles as the one before it unless the
  handler throws.
\<close>

definition then_success :: "'r options \<Rightarrow> data \<Rightarrow> 'r option outcome \<Rightarrow> string outcome" where
  "then_success options dat oc =
     (case oc of
        Rejected e \<Rightarrow> Rejected e
      | Fulfilled None \<Rightarrow> Rejected TypeError
      | Fulfilled (Some result) \<Rightarrow>
          (case opt_fn options of
             None \<Rightarrow> Rejected TypeError
           | Some fn \<Rightarrow> (case fn result dat of Inl e \<Rightarrow> Rejected e | Inr html \<Rightarrow> Fulfilled html)))"

definition catch_error :: "'r options \<Rightarrow> data \<Rightarrow> string outcome \<Rightarrow> string outcome" where
  "catch_error options dat oc =
     (case oc of
        Fulfilled html \<Rightarrow> Fulfilled html
      | Rejected err \<Rightarrow>
          (case message err of
             Inl e \<Rightarrow> Rejected e
           | Inr m \<Rightarrow>
               (case opt_inverse options (dat\<lparr>data_error := Some m\<rparr>) of
                  Inl e \<Rightarrow> Rejected e
                | Inr html \<Rightarrow> Fulfilled html)))"

definition finally_log :: "env \<Rightarrow> string outcome \<Rightarrow> string outcome" where
  "finally_log env oc = (case slow_log env of Some e \<Rightarrow> Rejected e | None \<Rightarrow> oc)"

definition settle_get ::
  "env \<Rightarrow> 'r options \<Rightarrow> helper_promise \<Rightarrow> 'r option outcome \<Rightarrow> string option outcome" where
  "settle_get env options pr oc =
     (case pr of
        Resolved v \<Rightarrow> Fulfilled v
      | Chained p dat \<Rightarrow>
          (case finally_log env (catch_error options dat (then_success options dat oc)) of
             Fulfilled html \<Rightarrow> Fulfilled (Some html)
           | Rejected e \<Rightarrow> Rejected e))"

section \<open>Reads and writes of the cache\<close>

lemma fetches_store: "fetches (store cn k e s) = fetches s"
  by (simp add: store_def split: option.splits)

lemma lookup_store:
  "cachedResults s cn \<noteq> None \<Longrightarrow>
   lookup (store cn k e s) cn' k' = (if cn' = cn \<and> k' = k then Some e else lookup s cn' k')"
  by (auto simp: store_def lookup_def split: option.splits)

lemma lookup_Some_object: "lookup s cn k = Some e \<Longrightarrow> cachedResults s cn \<noteq> None"
  by (auto simp: lookup_def split: option.splits)

lemma object_store: "cachedResults s cn \<noteq> None \<Longrightarrow> cachedResults (store cn' k e s) cn \<noteq> None"
  by (auto simp: store_def split: option.splits)

lemma lookup_fetches_update: "lookup (s\<lparr>fetches := fs\<rparr>) cn k = lookup s cn k"
  by (simp add: lookup_def)

lemma object_fetches_update: "cachedResults (s\<lparr>fetches := fs\<rparr>) = cachedResults s"
  by simp

lemma fetches_ensure_objects: "fetches (ensure_objects cn a s) = fetches s"
  by (simp add: ensure_objects_def Let_def fetches_store)

lemma object_ensure_objects: "cachedResults (ensure_objects cn a s) cn \<noteq> None"
  by (auto simp: ensure_objects_def Let_def store_def split: option.splits)

lemma lookup_ensure_objects:
  "lookup (ensure_objects cn a s) cn' k' =
     (if cn' = cn \<and> k' = action_name a \<and> lookup s cn k' = None then Some empty_object
      else lookup s cn' k')"
  by (auto simp: ensure_objects_def Let_def store_def lookup_def split: option.splits)

subsection \<open>The three paths of a call\<close>

lemma call_fetching:
  assumes "lookup s cn (stringify opts) = Some e" "isFetching e"
  shows "returnCacheAndStartRefetch stringify c a opts cn s = (Inr (promise e), ensure_objects cn a s)"
  using assms by (simp add: returnCacheAndStartRefetch_def Let_def lookup_ensure_objects)

lemma call_refresh:
  assumes "lookup s cn (stringify opts) = Some e" "\<not> isFetching e"
  shows "returnCacheAndStartRefetch stringify (Some c) a opts cn s =
           (Inr (promise e),
            (store cn (stringify opts) (e\<lparr>isFetching := True\<rparr>) (ensure_objects cn a s))
              \<lparr>fetches := fetches s @ [new_fetch c a opts (RefreshDone cn (stringify opts))]\<rparr>)"
  using assms
  by (simp add: returnCacheAndStartRefetch_def Let_def lookup_ensure_objects fetches_store
      fetches_ensure_objects)

lemma call_cold:
  assumes "lookup s cn (stringify opts) = None" "stringify opts \<noteq> action_name a"
  shows "returnCacheAndStartRefetch stringify (Some c) a opts cn s =
           (Inr (Some (length (fetches s))),
            store cn (stringify opts) \<lparr>isFetching = True, promise = Some (length (fetches s))\<rparr>
              ((ensure_objects cn a s)
                 \<lparr>fetches := fetches s @ [new_fetch c a opts (ColdDone cn (stringify opts))]\<rparr>))"
  using assms
  by (simp add: returnCacheAndStartRefetch_def Let_def lookup_ensure_objects fetches_ensure_objects)



subsection \<open>The invariant on a changed state\<close>

lemma awaiting_store [simp]: "awaiting (store cn k e s) p = awaiting s p"
  by (simp add: awaiting_def rejected_def fetches_store)
lemma fulfilled_store [simp]: "fulfilled (store cn k e s) p = fulfilled s p"
  by (simp add: fulfilled_def fetches_store)
lemma then_of_store [simp]: "then_of (store cn k e s) p = then_of s p"
  by (simp add: then_of_def fetches_store)
lemma awaiting_ensure [simp]: "awaiting (ensure_objects cn a s) p = awaiting s p"
  by (simp add: awaiting_def rejected_def fetches_ensure_objects)
lemma fulfilled_ensure [simp]: "fulfilled (ensure_objects cn a s) p = fulfilled s p"
  by (simp add: fulfilled_def fetches_ensure_objects)
lemma then_of_ensure [simp]: "then_of (ensure_objects cn a s) p = then_of s p"
  by (simp add: then_of_def fetches_ensure_objects)

lemma inv_called_store [simp]: "inv_called (store cn k e s) = inv_called s"
  by (simp add: inv_called_def fetches_store)
lemma inv_called_ensure [simp]: "inv_called (ensure_objects cn a s) = inv_called s"
  by (simp add: inv_called_def fetches_ensure_objects)

lemma stored_ok_store [simp]: "stored_ok (store cn k e s) cn' k' p = stored_ok s cn' k' p"
  by (simp add: stored_ok_def fetches_store)
lemma stored_ok_ensure [simp]: "stored_ok (ensure_objects cn a s) cn' k' p = stored_ok s cn' k' p"
  by (simp add: stored_ok_def fetches_ensure_objects)

lemma awaiting_less: "awaiting s p \<Longrightarrow> p < length (fetches s)"
  by (simp add: awaiting_def)

lemma inv_storedD:
  "inv_stored s \<Longrightarrow> lookup s cn k = Some e \<Longrightarrow> promise e = Some p \<Longrightarrow>
     stored_ok s cn k p"
  unfolding inv_stored_def by blast

lemma inv_idleD:
  "inv_idle s \<Longrightarrow> lookup s cn k = Some e \<Longrightarrow> \<not> isFetching e \<Longrightarrow> promise e = Some p \<Longrightarrow>
     fulfilled s p"
  unfolding inv_idle_def by blast

lemma inv_pendingD:
  "inv_pending s \<Longrightarrow> awaiting s p \<Longrightarrow>
     \<exists>e. entry_of s p = Some e \<and> isFetching e \<and>
         (if is_refresh (then_of s p) then (\<forall>q. promise e = Some q \<longrightarrow> fulfilled s q)
          else promise e = Some p)"
  unfolding inv_pending_def by blast

lemma inv_calledD:
  "inv_called s \<Longrightarrow> p < length (fetches s) \<Longrightarrow> f_called (fetches s ! p) \<Longrightarrow> fulfilled s p"
  unfolding inv_called_def by blast

lemma pending_awaiting: "inv_called s \<Longrightarrow> pending s p \<Longrightarrow> awaiting s p"
  by (auto simp: inv_called_def pending_def awaiting_def rejected_def fulfilled_def)

lemma inv_uniqueD:
  "inv_unique s \<Longrightarrow> awaiting s p \<Longrightarrow> awaiting s q \<Longrightarrow>
     callback_key (then_of s p) = callback_key (then_of s q) \<Longrightarrow> p = q"
  unfolding inv_unique_def by blast

lemma entry_of_key:
  "callback_key (then_of s p) = (cn, k) \<Longrightarrow> entry_of s p = lookup s cn k"
  by (simp add: entry_of_def)

lemma entry_of_ensure:
  "entry_of s p = Some e \<Longrightarrow> entry_of (ensure_objects cn a s) p = Some e"
  by (auto simp: entry_of_def lookup_ensure_objects)

lemma inv_ensure_objects: assumes "cache_inv s" shows "cache_inv (ensure_objects cn a s)"
proof -
  have st: "inv_stored (ensure_objects cn a s)"
    using assms unfolding cache_inv_def inv_stored_def
    by (auto simp: lookup_ensure_objects empty_object_def split: if_splits)
  have id: "inv_idle (ensure_objects cn a s)"
    using assms unfolding cache_inv_def inv_idle_def
    by (auto simp: lookup_ensure_objects empty_object_def split: if_splits)
  have pe: "inv_pending (ensure_objects cn a s)"
    using assms unfolding cache_inv_def inv_pending_def
    by (fastforce simp: entry_of_ensure)
  have un: "inv_unique (ensure_objects cn a s)"
    using assms unfolding cache_inv_def inv_unique_def by simp
  have ca: "inv_called (ensure_objects cn a s)"
    using assms by (simp add: cache_inv_def)
  show ?thesis unfolding cache_inv_def using st id pe un ca by blast
qed

lemma inv_mark:
  assumes "cache_inv s" "lookup s cn k = Some e"
  shows "cache_inv (store cn k (e\<lparr>isFetching := True\<rparr>) s)"
proof -
  let ?s = "store cn k (e\<lparr>isFetching := True\<rparr>) s"
  have ob: "cachedResults s cn \<noteq> None" using assms(2) by (rule lookup_Some_object)
  have st: "inv_stored ?s"
    using assms unfolding cache_inv_def inv_stored_def
    by (auto simp: lookup_store [OF ob] split: if_splits)
  have id: "inv_idle ?s"
    using assms unfolding cache_inv_def inv_idle_def
    by (auto simp: lookup_store [OF ob] split: if_splits)
  have pe: "inv_pending ?s"
    unfolding inv_pending_def
  proof (intro allI impI)
    fix p assume "awaiting ?s p"
    then have "awaiting s p" by simp
    with assms(1) obtain e' where e': "entry_of s p = Some e'" "isFetching e'"
      "if is_refresh (then_of s p) then (\<forall>q. promise e' = Some q \<longrightarrow> fulfilled s q)
       else promise e' = Some p"
      unfolding cache_inv_def inv_pending_def by blast
    show "\<exists>e. entry_of ?s p = Some e \<and> isFetching e \<and>
             (if is_refresh (then_of ?s p) then (\<forall>q. promise e = Some q \<longrightarrow> fulfilled ?s q)
              else promise e = Some p)"
    proof (cases "callback_key (then_of s p) = (cn, k)")
      case True
      then have "e' = e" using e'(1) assms(2) by (simp add: entry_of_def)
      moreover have "entry_of ?s p = Some (e\<lparr>isFetching := True\<rparr>)"
        using True by (simp add: entry_of_def lookup_store [OF ob])
      ultimately show ?thesis using e' by (auto split: if_splits)
    next
      case False
      then have "entry_of ?s p = Some e'"
        using e'(1) by (auto simp: entry_of_def lookup_store [OF ob] prod_eq_iff)
      then show ?thesis using e' by simp
    qed
  qed
  have un: "inv_unique ?s"
    using assms unfolding cache_inv_def inv_unique_def by simp
  have ca: "inv_called ?s"
    using assms by (simp add: cache_inv_def)
  show ?thesis unfolding cache_inv_def using st id pe un ca by blast
qed


lemma new_fetch_sel [simp]:
  "f_outcome (new_fetch c a opts cb) = None" "f_then (new_fetch c a opts cb) = cb"
  by (simp_all add: new_fetch_def)

lemma awaiting_issue:
  "awaiting (s\<lparr>fetches := fetches s @ [new_fetch c a opts cb]\<rparr>) p =
     (awaiting s p \<or> p = length (fetches s))"
  by (auto simp: awaiting_def rejected_def nth_append new_fetch_def)

lemma fulfilled_issue:
  "fulfilled (s\<lparr>fetches := fetches s @ [new_fetch c a opts cb]\<rparr>) p = fulfilled s p"
  by (auto simp: fulfilled_def nth_append)

lemma then_of_issue_old:
  "p < length (fetches s) \<Longrightarrow> then_of (s\<lparr>fetches := fetches s @ [f]\<rparr>) p = then_of s p"
  by (simp add: then_of_def nth_append)

lemma then_of_issue_new:
  "then_of (s\<lparr>fetches := fetches s @ [new_fetch c a opts cb]\<rparr>) (length (fetches s)) = cb"
  by (simp add: then_of_def nth_append)

lemma entry_of_issue_old:
  "p < length (fetches s) \<Longrightarrow> entry_of (s\<lparr>fetches := fetches s @ [f]\<rparr>) p = entry_of s p"
  by (simp add: entry_of_def then_of_issue_old lookup_fetches_update)

lemma inv_called_issue:
  "inv_called s \<Longrightarrow> inv_called (s\<lparr>fetches := fetches s @ [new_fetch c a opts cb]\<rparr>)"
  by (auto simp: inv_called_def fulfilled_def nth_append new_fetch_def)

lemma stored_ok_issue:
  "stored_ok s cn k p \<Longrightarrow> stored_ok (s\<lparr>fetches := fetches s @ [new_fetch c a opts cb]\<rparr>) cn k p"
  by (simp add: stored_ok_def then_of_issue_old fulfilled_issue)

lemma awaiting_key_has_entry:
  assumes "inv_pending s" "awaiting s p" "callback_key (then_of s p) = (cn, k)"
  shows "\<exists>e. lookup s cn k = Some e \<and> isFetching e"
  using inv_pendingD [OF assms(1,2)] assms(3) by (auto simp: entry_of_def)

lemma inv_issue_refresh:
  assumes inv: "cache_inv s"
    and e: "lookup s cn k = Some e" "isFetching e" "\<forall>q. promise e = Some q \<longrightarrow> fulfilled s q"
    and free: "\<forall>p. awaiting s p \<longrightarrow> callback_key (then_of s p) \<noteq> (cn, k)"
  shows "cache_inv (s\<lparr>fetches := fetches s @ [new_fetch c a opts (RefreshDone cn k)]\<rparr>)"
proof -
  let ?s = "s\<lparr>fetches := fetches s @ [new_fetch c a opts (RefreshDone cn k)]\<rparr>"
  from inv have i: "inv_stored s" "inv_idle s" "inv_pending s" "inv_unique s" "inv_called s"
    by (simp_all add: cache_inv_def)
  have lk: "\<And>cn k. lookup ?s cn k = lookup s cn k" by (simp add: lookup_def)
  note th = then_of_issue_old
  note thn = then_of_issue_new
  note fu = fulfilled_issue
  note pe = awaiting_issue
  have st: "inv_stored ?s"
    unfolding inv_stored_def
  proof (intro allI impI)
    fix cn' k' e' p assume a: "lookup ?s cn' k' = Some e'" "promise e' = Some p"
    then have "stored_ok s cn' k' p"
      using inv_storedD [OF i(1)] by (simp add: lk)
    then show "stored_ok ?s cn' k' p" by (rule stored_ok_issue)
  qed
  have id: "inv_idle ?s"
    using i(2) unfolding inv_idle_def by (simp add: lk fu)
  have pn: "inv_pending ?s"
    unfolding inv_pending_def
  proof (intro allI impI)
    fix p assume "awaiting ?s p"
    then consider "awaiting s p" | "p = length (fetches s)" by (auto simp: pe)
    then show "\<exists>e. entry_of ?s p = Some e \<and> isFetching e \<and>
             (if is_refresh (then_of ?s p) then (\<forall>q. promise e = Some q \<longrightarrow> fulfilled ?s q)
              else promise e = Some p)"
    proof cases
      case 1
      then have "then_of ?s p = then_of s p" "entry_of ?s p = entry_of s p"
        by (simp_all add: th entry_of_issue_old awaiting_less)
      then show ?thesis
        using inv_pendingD [OF i(3) 1] by (auto simp: fu)
    next
      case 2
      then have "entry_of ?s p = Some e" using e(1) by (simp add: entry_of_def lk thn)
      then show ?thesis using 2 e(2,3) by (simp add: fu thn)
    qed
  qed
  have un: "inv_unique ?s"
    unfolding inv_unique_def
  proof (intro allI impI)
    fix p q assume a: "awaiting ?s p" "awaiting ?s q"
      "callback_key (then_of ?s p) = callback_key (then_of ?s q)"
    have old: "\<And>x. awaiting s x \<Longrightarrow> callback_key (then_of ?s x) \<noteq> (cn, k)"
      using free by (simp add: th awaiting_less)
    have new: "callback_key (then_of ?s (length (fetches s))) = (cn, k)"
      by (simp add: thn)
    show "p = q"
    proof (cases "p = length (fetches s)")
      case True
      have "\<not> awaiting s q" using a(3) old [of q] new True by auto
      moreover have "awaiting s q \<or> q = length (fetches s)" using a(2) by (simp add: pe)
      ultimately show ?thesis using True by simp
    next
      case False
      then have p: "awaiting s p" using a(1) by (auto simp: pe)
      show ?thesis
      proof (cases "q = length (fetches s)")
        case True
        then show ?thesis using a(3) old [OF p] new by auto
      next
        case False
        then have q: "awaiting s q" using a(2) by (auto simp: pe)
        then show ?thesis
          using a(3) p inv_uniqueD [OF i(4) p q] by (simp add: th awaiting_less)
      qed
    qed
  qed
  have ca: "inv_called ?s" using i(5) by (simp add: inv_called_issue)
  show ?thesis unfolding cache_inv_def using st id pn un ca by blast
qed

lemma inv_issue_cold:
  assumes inv: "cache_inv s"
    and ob: "cachedResults s cn \<noteq> None"
    and e: "lookup s cn k = None"
  shows "cache_inv (store cn k \<lparr>isFetching = True, promise = Some (length (fetches s))\<rparr>
                      (s\<lparr>fetches := fetches s @ [new_fetch c a opts (ColdDone cn k)]\<rparr>))"
proof -
  let ?n = "length (fetches s)"
  let ?t = "s\<lparr>fetches := fetches s @ [new_fetch c a opts (ColdDone cn k)]\<rparr>"
  let ?s = "store cn k \<lparr>isFetching = True, promise = Some ?n\<rparr> ?t"
  from inv have i: "inv_stored s" "inv_idle s" "inv_pending s" "inv_unique s" "inv_called s"
    by (simp_all add: cache_inv_def)
  have ob': "cachedResults ?t cn \<noteq> None" using ob by simp
  have lk: "\<And>cn' k'. lookup ?s cn' k' =
              (if cn' = cn \<and> k' = k then Some \<lparr>isFetching = True, promise = Some ?n\<rparr>
               else lookup s cn' k')"
    by (simp add: lookup_store [OF ob'] lookup_fetches_update)
  note th = then_of_issue_old
  note thn = then_of_issue_new
  note fu = fulfilled_issue
  note pe = awaiting_issue
  have free: "\<And>p. awaiting s p \<Longrightarrow> callback_key (then_of s p) \<noteq> (cn, k)"
    using awaiting_key_has_entry [OF i(3)] e by fastforce
  have st: "inv_stored ?s"
    unfolding inv_stored_def
  proof (intro allI impI)
    fix cn' k' e' p assume a: "lookup ?s cn' k' = Some e'" "promise e' = Some p"
    show "stored_ok ?s cn' k' p"
    proof (cases "cn' = cn \<and> k' = k")
      case True
      then have "p = ?n" using a by (auto simp: lk)
      then show ?thesis using True by (simp add: stored_ok_def then_of_issue_new fetches_store)
    next
      case False
      then have "stored_ok s cn' k' p"
        using a inv_storedD [OF i(1), of cn' k' e' p] by (auto simp: lk split: if_splits)
      then show ?thesis by (simp add: stored_ok_issue)
    qed
  qed
  have id: "inv_idle ?s"
    unfolding inv_idle_def
  proof (intro allI impI)
    fix cn' k' e' p
    assume a: "lookup ?s cn' k' = Some e'" "\<not> isFetching e'" "promise e' = Some p"
    then have "lookup s cn' k' = Some e'" by (auto simp: lk split: if_splits)
    then show "fulfilled ?s p" using a inv_idleD [OF i(2)] by (simp add: fu)
  qed
  have pn: "inv_pending ?s"
    unfolding inv_pending_def
  proof (intro allI impI)
    fix p assume "awaiting ?s p"
    then consider "awaiting s p" | "p = ?n" by (auto simp: pe)
    then show "\<exists>e. entry_of ?s p = Some e \<and> isFetching e \<and>
             (if is_refresh (then_of ?s p) then (\<forall>q. promise e = Some q \<longrightarrow> fulfilled ?s q)
              else promise e = Some p)"
    proof cases
      case 1
      then have t: "then_of ?s p = then_of s p" by (simp add: th awaiting_less)
      have "entry_of ?s p = entry_of s p"
        using free [OF 1] unfolding entry_of_def t by (auto simp: lk prod_eq_iff)
      then show ?thesis
        using inv_pendingD [OF i(3) 1] t by (auto simp: fu)
    next
      case 2
      then have "entry_of ?s p = Some \<lparr>isFetching = True, promise = Some ?n\<rparr>"
        unfolding entry_of_def by (simp add: lk thn)
      then show ?thesis using 2 by (simp add: thn)
    qed
  qed
  have un: "inv_unique ?s"
    unfolding inv_unique_def
  proof (intro allI impI)
    fix p q assume a: "awaiting ?s p" "awaiting ?s q"
      "callback_key (then_of ?s p) = callback_key (then_of ?s q)"
    have old: "\<And>x. awaiting s x \<Longrightarrow> callback_key (then_of ?s x) \<noteq> (cn, k)"
      using free by (simp add: th awaiting_less)
    have new: "callback_key (then_of ?s ?n) = (cn, k)"
      by (simp add: thn)
    show "p = q"
    proof (cases "p = ?n")
      case True
      have "\<not> awaiting s q" using a(3) old [of q] new True by auto
      moreover have "awaiting s q \<or> q = length (fetches s)" using a(2) by (simp add: pe)
      ultimately show ?thesis using True by simp
    next
      case False
      then have p: "awaiting s p" using a(1) by (auto simp: pe)
      show ?thesis
      proof (cases "q = ?n")
        case True
        then show ?thesis using a(3) old [OF p] new by auto
      next
        case False
        then have q: "awaiting s q" using a(2) by (auto simp: pe)
        then show ?thesis
          using a(3) p inv_uniqueD [OF i(4) p q] by (simp add: th awaiting_less)
      qed
    qed
  qed
  have ca: "inv_called ?s" using i(5) by (simp add: inv_called_issue)
  show ?thesis unfolding cache_inv_def using st id pn un ca by blast
qed



lemma inv_call:
  assumes inv: "cache_inv s"
  shows "cache_inv (snd (returnCacheAndStartRefetch stringify c a opts cn s))"
proof -
  let ?s2 = "ensure_objects cn a s"
  let ?k = "stringify opts"
  have inv2: "cache_inv ?s2" using inv by (rule inv_ensure_objects)
  have ob2: "cachedResults ?s2 cn \<noteq> None" by (rule object_ensure_objects)
  show ?thesis
  proof (cases "lookup ?s2 cn ?k")
    case None
    show ?thesis
    proof (cases c)
      case None
      with \<open>lookup ?s2 cn ?k = None\<close> inv2 show ?thesis
        by (simp add: returnCacheAndStartRefetch_def)
    next
      case (Some ctl)
      with \<open>lookup ?s2 cn ?k = None\<close> inv_issue_cold [OF inv2 ob2, of ?k ctl a opts]
      show ?thesis
        by (simp add: returnCacheAndStartRefetch_def Let_def)
    qed
  next
    case (Some cache)
    show ?thesis
    proof (cases "isFetching cache")
      case True
      with Some inv2 show ?thesis by (simp add: returnCacheAndStartRefetch_def)
    next
      case False
      let ?e = "cache\<lparr>isFetching := True\<rparr>"
      let ?s3 = "store cn ?k ?e ?s2"
      have inv3: "cache_inv ?s3" using inv2 Some by (rule inv_mark)
      show ?thesis
      proof (cases c)
        case None
        with Some False inv3 show ?thesis by (simp add: returnCacheAndStartRefetch_def)
      next
        case (Some ctl)
        from inv2 have i: "inv_idle ?s2" "inv_pending ?s2" by (simp_all add: cache_inv_def)
        have l3: "lookup ?s3 cn ?k = Some ?e" by (simp add: lookup_store [OF ob2])
        have f3: "\<forall>q. promise ?e = Some q \<longrightarrow> fulfilled ?s3 q"
          using inv_idleD [OF i(1) \<open>lookup ?s2 cn ?k = Some cache\<close> False] by simp
        have free: "\<forall>p. awaiting ?s3 p \<longrightarrow> callback_key (then_of ?s3 p) \<noteq> (cn, ?k)"
        proof (intro allI impI notI)
          fix p assume "awaiting ?s3 p" "callback_key (then_of ?s3 p) = (cn, ?k)"
          then have "awaiting ?s2 p" "callback_key (then_of ?s2 p) = (cn, ?k)" by simp_all
          from awaiting_key_has_entry [OF i(2) this]
          show False using \<open>lookup ?s2 cn ?k = Some cache\<close> False by simp
        qed
        have "cache_inv (?s3\<lparr>fetches := fetches ?s3 @ [new_fetch ctl a opts (RefreshDone cn ?k)]\<rparr>)"
          using inv3 l3 _ f3 free by (rule inv_issue_refresh) simp
        with Some \<open>lookup ?s2 cn ?k = Some cache\<close> False show ?thesis
          by (simp add: returnCacheAndStartRefetch_def Let_def)
      qed
    qed
  qed
qed


lemma lookup_settle_promise [simp]: "lookup (settle_promise p oc s) cn k = lookup s cn k"
  by (simp add: settle_promise_def lookup_def)

lemma then_of_settle_promise [simp]: "then_of (settle_promise p oc s) q = then_of s q"
  by (cases "p < length (fetches s)") (auto simp: settle_promise_def then_of_def nth_list_update list_update_beyond)

lemma entry_of_settle_promise [simp]: "entry_of (settle_promise p oc s) q = entry_of s q"
  by (simp add: entry_of_def)

lemma length_settle_promise [simp]: "length (fetches (settle_promise p oc s)) = length (fetches s)"
  by (simp add: settle_promise_def)

lemma called_settle_promise [simp]:
  "f_called (fetches (settle_promise p oc s) ! q) = f_called (fetches s ! q)"
  by (cases "p < length (fetches s)"; cases "p = q")
     (auto simp: settle_promise_def list_update_beyond)

lemma awaiting_set_Rejected:
  "awaiting (settle_promise p (Rejected e) s) q = (awaiting s q \<and> q \<noteq> p)"
  by (cases "p = q") (auto simp: settle_promise_def awaiting_def rejected_def)

lemma awaiting_set_Fulfilled:
  "pending s p \<Longrightarrow> awaiting (settle_promise p (Fulfilled r) s) q = awaiting s q"
  by (cases "p = q") (auto simp: settle_promise_def awaiting_def rejected_def pending_def)

lemma fulfilled_set_Fulfilled:
  "p < length (fetches s) \<Longrightarrow>
   fulfilled (settle_promise p (Fulfilled r) s) q = (fulfilled s q \<or> q = p)"
  by (auto simp: settle_promise_def fulfilled_def nth_list_update)

lemma fulfilled_set_Rejected:
  "pending s p \<Longrightarrow> fulfilled (settle_promise p (Rejected e) s) q = fulfilled s q"
  by (auto simp: settle_promise_def fulfilled_def pending_def nth_list_update)

lemma stored_ok_settle_Fulfilled:
  "stored_ok s cn k q \<Longrightarrow> p < length (fetches s) \<Longrightarrow>
   stored_ok (settle_promise p (Fulfilled r) s) cn k q"
  by (simp add: stored_ok_def fulfilled_set_Fulfilled)

lemma stored_ok_settle_Rejected:
  "pending s p \<Longrightarrow> stored_ok (settle_promise p (Rejected e) s) cn k q = stored_ok s cn k q"
  by (simp add: stored_ok_def fulfilled_set_Rejected)

lemma inv_called_settle_Fulfilled:
  "inv_called s \<Longrightarrow> p < length (fetches s) \<Longrightarrow> inv_called (settle_promise p (Fulfilled r) s)"
  by (simp add: inv_called_def fulfilled_set_Fulfilled)

lemma inv_called_settle_Rejected:
  "inv_called s \<Longrightarrow> pending s p \<Longrightarrow> inv_called (settle_promise p (Rejected e) s)"
  by (simp add: inv_called_def fulfilled_set_Rejected)

lemma lookup_mark_called [simp]: "lookup (mark_called p s) cn k = lookup s cn k"
  by (simp add: mark_called_def lookup_def)

lemma length_mark_called [simp]: "length (fetches (mark_called p s)) = length (fetches s)"
  by (simp add: mark_called_def)

lemma then_of_mark_called [simp]: "then_of (mark_called p s) q = then_of s q"
  by (cases "p < length (fetches s)"; cases "p = q")
     (auto simp: mark_called_def then_of_def list_update_beyond)

lemma entry_of_mark_called [simp]: "entry_of (mark_called p s) q = entry_of s q"
  by (simp add: entry_of_def)

lemma fulfilled_mark_called [simp]: "fulfilled (mark_called p s) q = fulfilled s q"
  by (cases "p = q") (auto simp: mark_called_def fulfilled_def)

lemma stored_ok_mark_called [simp]: "stored_ok (mark_called p s) cn k q = stored_ok s cn k q"
  by (simp add: stored_ok_def)

lemma awaiting_mark_called: "awaiting (mark_called p s) q = (awaiting s q \<and> q \<noteq> p)"
  by (cases "p = q") (auto simp: mark_called_def awaiting_def rejected_def)

lemma inv_called_mark:
  "inv_called s \<Longrightarrow> fulfilled s p \<Longrightarrow> inv_called (mark_called p s)"
  unfolding inv_called_def
  by (metis fulfilled_mark_called length_mark_called mark_called_def nth_list_update_neq
      state.select_convs(2) state.surjective state.update_convs(2))

lemma entry_of_store_other:
  assumes "cachedResults s cn \<noteq> None" "callback_key (then_of s q) \<noteq> (cn, k)"
  shows "entry_of (store cn k e s) q = entry_of s q"
  using assms(2) by (auto simp: entry_of_def lookup_store [OF assms(1)] prod_eq_iff)

lemma inv_settle:
  assumes inv: "cache_inv s" and p: "pending s p"
  shows "cache_inv (settle_promise p oc s)"
proof -
  let ?t = "settle_promise p oc s"
  from inv have i: "inv_stored s" "inv_idle s" "inv_pending s" "inv_unique s" "inv_called s"
    by (simp_all add: cache_inv_def)
  have pl: "p < length (fetches s)" using p by (simp add: pending_def)
  have fu: "\<And>q. fulfilled s q \<Longrightarrow> fulfilled ?t q"
    using p pl by (cases oc) (simp_all add: fulfilled_set_Fulfilled fulfilled_set_Rejected)
  have aw: "\<And>q. awaiting ?t q \<Longrightarrow> awaiting s q"
    using p by (cases oc) (simp_all add: awaiting_set_Fulfilled awaiting_set_Rejected)
  have st: "inv_stored ?t"
    using i(1) p pl unfolding inv_stored_def
    by (cases oc) (auto simp: stored_ok_settle_Fulfilled stored_ok_settle_Rejected)
  have id: "inv_idle ?t"
    using i(2) unfolding inv_idle_def by (auto intro: fu)
  have pn: "inv_pending ?t"
    unfolding inv_pending_def
  proof (intro allI impI)
    fix q assume "awaiting ?t q"
    then have "awaiting s q" by (rule aw)
    from inv_pendingD [OF i(3) this] fu
    show "\<exists>e. entry_of ?t q = Some e \<and> isFetching e \<and>
             (if is_refresh (then_of ?t q) then (\<forall>x. promise e = Some x \<longrightarrow> fulfilled ?t x)
              else promise e = Some q)"
      by auto
  qed
  have un: "inv_unique ?t"
    using i(4) aw unfolding inv_unique_def by auto
  have ca: "inv_called ?t"
    using i(5) p pl
    by (cases oc) (simp_all add: inv_called_settle_Fulfilled inv_called_settle_Rejected)
  show ?thesis using st id pn un ca by (simp add: cache_inv_def)
qed

lemma inv_reject: "cache_inv s \<Longrightarrow> cache_inv (reject p e s)"
  by (simp add: reject_def inv_settle)

lemma inv_resolve_promise: "cache_inv s \<Longrightarrow> cache_inv (resolve_promise p r s)"
  by (simp add: resolve_promise_def inv_settle)

lemma inv_run_then:
  assumes inv: "cache_inv s"
  shows "cache_inv (run_then p s)"
proof (cases "fulfilled s p \<and> \<not> f_called (fetches s ! p)")
  case False
  with inv show ?thesis by (auto simp: run_then_def)
next
  case True
  let ?t = "mark_called p s"
  from inv have i: "inv_stored s" "inv_idle s" "inv_pending s" "inv_unique s" "inv_called s"
    by (simp_all add: cache_inv_def)
  have fp: "fulfilled s p" using True by simp
  have pl: "p < length (fetches s)" using fp by (simp add: fulfilled_def)
  have aw: "awaiting s p"
    using True by (auto simp: awaiting_def fulfilled_def rejected_def split: option.splits outcome.splits)
  note pe = awaiting_mark_called
  obtain cn k where key: "callback_key (then_of s p) = (cn, k)" by (cases "callback_key (then_of s p)")
  from inv_pendingD [OF i(3) aw] obtain e0 where e0: "lookup s cn k = Some e0" "isFetching e0"
    "if is_refresh (then_of s p) then (\<forall>q. promise e0 = Some q \<longrightarrow> fulfilled s q)
     else promise e0 = Some p"
    using key by (auto simp: entry_of_def)
  have ob: "cachedResults ?t cn \<noteq> None"
    using lookup_Some_object [OF e0(1)] by (simp add: mark_called_def)
  define e1 where "e1 = (if is_refresh (then_of s p) then e0\<lparr>promise := Some p, isFetching := False\<rparr>
                         else e0\<lparr>isFetching := False\<rparr>)"
  have e1: "promise e1 = Some p" "\<not> isFetching e1"
    using e0(3) by (auto simp: e1_def)
  let ?u = "store cn k e1 ?t"
  have u: "run_then p s = ?u"
    using True key e0(1) by (cases "then_of s p") (auto simp: run_then_def then_of_def e1_def)
  have lk: "\<And>cn' k'. lookup ?u cn' k' = (if cn' = cn \<and> k' = k then Some e1 else lookup s cn' k')"
    by (simp add: lookup_store [OF ob])
  have other: "\<And>q. awaiting s q \<Longrightarrow> q \<noteq> p \<Longrightarrow> callback_key (then_of s q) \<noteq> (cn, k)"
    using inv_uniqueD [OF i(4) _ aw] key by auto
  have st: "inv_stored ?u"
    unfolding inv_stored_def
  proof (intro allI impI)
    fix cn' k' e' q assume a: "lookup ?u cn' k' = Some e'" "promise e' = Some q"
    show "stored_ok ?u cn' k' q"
    proof (cases "cn' = cn \<and> k' = k")
      case True
      then have "q = p" using a e1 by (auto simp: lk)
      then show ?thesis using pl True key fp by (simp add: stored_ok_def fetches_store)
    next
      case False
      then have "stored_ok s cn' k' q"
        using a inv_storedD [OF i(1), of cn' k' e' q] by (auto simp: lk split: if_splits)
      then show ?thesis by simp
    qed
  qed
  have id: "inv_idle ?u"
    unfolding inv_idle_def
  proof (intro allI impI)
    fix cn' k' e' q
    assume a: "lookup ?u cn' k' = Some e'" "\<not> isFetching e'" "promise e' = Some q"
    show "fulfilled ?u q"
    proof (cases "cn' = cn \<and> k' = k")
      case True
      then have "q = p" using a e1 by (auto simp: lk)
      then show ?thesis using fp by simp
    next
      case False
      then have "fulfilled s q"
        using a inv_idleD [OF i(2), of cn' k' e' q] by (auto simp: lk split: if_splits)
      then show ?thesis by simp
    qed
  qed
  have pn: "inv_pending ?u"
    unfolding inv_pending_def
  proof (intro allI impI)
    fix q assume "awaiting ?u q"
    then have q: "awaiting s q" "q \<noteq> p" by (simp_all add: pe)
    have "entry_of ?u q = entry_of s q"
      using entry_of_store_other [OF ob, of q k e1] other [OF q] by simp
    then show "\<exists>e. entry_of ?u q = Some e \<and> isFetching e \<and>
             (if is_refresh (then_of ?u q) then (\<forall>x. promise e = Some x \<longrightarrow> fulfilled ?u x)
              else promise e = Some q)"
      using inv_pendingD [OF i(3) q(1)] by auto
  qed
  have un: "inv_unique ?u"
    using i(4) unfolding inv_unique_def by (simp add: pe)
  have ca: "inv_called ?u"
    using inv_called_mark [OF i(5) fp] by simp
  show ?thesis unfolding u cache_inv_def using st id pn un ca by blast
qed

lemma inv_fulfil: "cache_inv s \<Longrightarrow> cache_inv (fulfil p r s)"
  by (simp add: fulfil_def inv_resolve_promise inv_run_then)

subsection \<open>The invariant holds in every reachable state\<close>

lemma inv_init: "cache_inv init_state"
  by (simp add: cache_inv_def inv_stored_def inv_idle_def inv_pending_def inv_unique_def
      inv_called_def init_state_def lookup_def awaiting_def)

lemma inv_step: "cache_inv s \<Longrightarrow> cache_inv (step stringify ev s)"
  by (cases ev) (simp_all add: inv_call inv_fulfil inv_reject inv_resolve_promise inv_run_then)

lemma run_snoc: "run stringify (evs @ [ev]) s = step stringify ev (run stringify evs s)"
  by (simp add: run_def)

lemma inv_run: "cache_inv s \<Longrightarrow> cache_inv (run stringify evs s)"
  by (induction evs rule: rev_induct) (simp_all add: run_snoc inv_step, simp add: run_def)

subsection \<open>Settlements and runs of closures\<close>

lemma lookup_resolve_promise [simp]: "lookup (resolve_promise p r s) cn k = lookup s cn k"
  by (simp add: resolve_promise_def)

lemma lookup_reject [simp]: "lookup (reject p e s) cn k = lookup s cn k"
  by (simp add: reject_def)

lemma then_of_resolve_promise [simp]: "then_of (resolve_promise p r s) q = then_of s q"
  by (simp add: resolve_promise_def)

lemma then_of_reject [simp]: "then_of (reject p e s) q = then_of s q"
  by (simp add: reject_def)

lemma length_resolve_promise [simp]:
  "length (fetches (resolve_promise p r s)) = length (fetches s)"
  by (simp add: resolve_promise_def)

lemma length_reject [simp]: "length (fetches (reject p e s)) = length (fetches s)"
  by (simp add: reject_def)

lemma called_resolve_promise [simp]:
  "f_called (fetches (resolve_promise p r s) ! q) = f_called (fetches s ! q)"
  by (simp add: resolve_promise_def)

lemma called_reject [simp]: "f_called (fetches (reject p e s) ! q) = f_called (fetches s ! q)"
  by (simp add: reject_def)

lemma awaiting_resolve_promise [simp]: "awaiting (resolve_promise p r s) q = awaiting s q"
  by (simp add: resolve_promise_def awaiting_set_Fulfilled)

lemma fulfilled_resolve_promise: "pending s p \<Longrightarrow> fulfilled (resolve_promise p r s) p"
  by (simp add: resolve_promise_def fulfilled_set_Fulfilled pending_def)

lemma outcome_resolve_promise:
  "pending s p \<Longrightarrow> f_outcome (fetches (resolve_promise p r s) ! p) = Some (Fulfilled r)"
  by (simp add: resolve_promise_def settle_promise_def pending_def)

lemma fetches_run_then:
  "fetches (run_then p s) = fetches s \<or> fetches (run_then p s) = fetches (mark_called p s)"
  by (cases "f_then (fetches s ! p)")
     (auto simp: run_then_def fetches_store split: option.splits)

lemma length_run_then [simp]: "length (fetches (run_then p s)) = length (fetches s)"
  using fetches_run_then [of p s] by auto

lemma nth_mark_called:
  "f_outcome (fetches (mark_called p s) ! q) = f_outcome (fetches s ! q) \<and>
   f_then (fetches (mark_called p s) ! q) = f_then (fetches s ! q)"
  by (cases "p < length (fetches s)"; cases "p = q")
     (auto simp: mark_called_def list_update_beyond)

lemma nth_run_then:
  "f_outcome (fetches (run_then p s) ! q) = f_outcome (fetches s ! q) \<and>
   f_then (fetches (run_then p s) ! q) = f_then (fetches s ! q)"
  using fetches_run_then [of p s] nth_mark_called [of p s q] by auto

lemma outcome_run_then [simp]:
  "f_outcome (fetches (run_then p s) ! q) = f_outcome (fetches s ! q)"
  by (simp add: nth_run_then)

lemma closure_run_then [simp]: "f_then (fetches (run_then p s) ! q) = f_then (fetches s ! q)"
  by (simp add: nth_run_then)

lemma then_of_run_then [simp]: "then_of (run_then p s) q = then_of s q"
  by (simp add: then_of_def nth_run_then)

lemma called_run_then_other:
  "q \<noteq> p \<Longrightarrow> f_called (fetches (run_then p s) ! q) = f_called (fetches s ! q)"
  using fetches_run_then [of p s] by (auto simp: mark_called_def)

lemma lookup_run_then_cold:
  assumes "fulfilled s p" "\<not> f_called (fetches s ! p)" "then_of s p = ColdDone cn k"
    "lookup s cn k = Some e"
  shows "lookup (run_then p s) cn k = Some (e\<lparr>isFetching := False\<rparr>)"
proof -
  have "cachedResults (mark_called p s) cn \<noteq> None"
    using lookup_Some_object [OF assms(4)] by (simp add: mark_called_def)
  then show ?thesis
    using assms by (simp add: run_then_def then_of_def lookup_store)
qed

lemma lookup_run_then_refresh:
  assumes "fulfilled s p" "\<not> f_called (fetches s ! p)" "then_of s p = RefreshDone cn k"
    "lookup s cn k = Some e"
  shows "lookup (run_then p s) cn k = Some (e\<lparr>promise := Some p, isFetching := False\<rparr>)"
proof -
  have "cachedResults (mark_called p s) cn \<noteq> None"
    using lookup_Some_object [OF assms(4)] by (simp add: mark_called_def)
  then show ?thesis
    using assms by (simp add: run_then_def then_of_def lookup_store)
qed

lemma lookup_fulfil_cold:
  assumes "pending s p" "\<not> f_called (fetches s ! p)" "then_of s p = ColdDone cn k"
    "lookup s cn k = Some e"
  shows "lookup (fulfil p r s) cn k = Some (e\<lparr>isFetching := False\<rparr>)"
  unfolding fulfil_def
  using assms by (intro lookup_run_then_cold) (simp_all add: fulfilled_resolve_promise)

lemma lookup_fulfil_refresh:
  assumes "pending s p" "\<not> f_called (fetches s ! p)" "then_of s p = RefreshDone cn k"
    "lookup s cn k = Some e"
  shows "lookup (fulfil p r s) cn k = Some (e\<lparr>promise := Some p, isFetching := False\<rparr>)"
  unfolding fulfil_def
  using assms by (intro lookup_run_then_refresh) (simp_all add: fulfilled_resolve_promise)

lemma outcome_fulfil:
  "pending s p \<Longrightarrow> f_outcome (fetches (fulfil p r s) ! p) = Some (Fulfilled r)"
  by (simp add: fulfil_def nth_run_then outcome_resolve_promise)

lemma cold_call_effect:
  assumes "lookup s cn (stringify opts) = None"
    and "stringify opts \<noteq> action_name a"
    and "returnCacheAndStartRefetch stringify (Some c) a opts cn s = (res, s')"
    and "p = length (fetches s)"
  shows "res = Inr (Some p) \<and>
         fetches s' = fetches s @ [new_fetch c a opts (ColdDone cn (stringify opts))] \<and>
         lookup s' cn (stringify opts) = Some \<lparr>isFetching = True, promise = Some p\<rparr> \<and>
         pending s' p \<and>
         lookup (fulfil p r s') cn (stringify opts) = Some \<lparr>isFetching = False, promise = Some p\<rparr> \<and>
         f_outcome (fetches (fulfil p r s') ! p) = Some (Fulfilled r) \<and>
         lookup (reject p err s') cn (stringify opts) = Some \<lparr>isFetching = True, promise = Some p\<rparr>"
proof -
  let ?k = "stringify opts"
  let ?t = "(ensure_objects cn a s)\<lparr>fetches := fetches s @ [new_fetch c a opts (ColdDone cn ?k)]\<rparr>"
  have s': "s' = store cn ?k \<lparr>isFetching = True, promise = Some p\<rparr> ?t" and res: "res = Inr (Some p)"
    using assms(3) unfolding call_cold [where stringify = stringify and opts = opts, OF assms(1,2)] assms(4) by simp_all
  have ob: "cachedResults ?t cn \<noteq> None" using object_ensure_objects [of cn a s] by simp
  have f: "fetches s' = fetches s @ [new_fetch c a opts (ColdDone cn ?k)]"
    by (simp add: s' fetches_store)
  have l: "lookup s' cn ?k = Some \<lparr>isFetching = True, promise = Some p\<rparr>"
    by (simp add: s' lookup_store [OF ob])
  have pe: "pending s' p" by (simp add: pending_def f assms(4))
  have th: "then_of s' p = ColdDone cn ?k" by (simp add: then_of_def f assms(4))
  have nc: "\<not> f_called (fetches s' ! p)" by (simp add: f assms(4) new_fetch_def)
  show ?thesis
    using res f l pe lookup_fulfil_cold [OF pe nc th l, of r] outcome_fulfil [OF pe, of r]
    by simp
qed


subsection \<open>What a step leaves alone\<close>

lemma call_fetches_cases:
  "fetches (snd (returnCacheAndStartRefetch stringify c a opts cn s)) = fetches s \<or>
   (\<exists>ctl. c = Some ctl \<and>
      (fetches (snd (returnCacheAndStartRefetch stringify c a opts cn s))
         = fetches s @ [new_fetch ctl a opts (ColdDone cn (stringify opts))] \<or>
       fetches (snd (returnCacheAndStartRefetch stringify c a opts cn s))
         = fetches s @ [new_fetch ctl a opts (RefreshDone cn (stringify opts))]) \<and>
      (\<forall>e. lookup s cn (stringify opts) = Some e \<longrightarrow> \<not> isFetching e))"
  by (auto simp: returnCacheAndStartRefetch_def Let_def fetches_store fetches_ensure_objects
      lookup_ensure_objects split: option.splits if_splits)

lemma call_fetches:
  "fetches (snd (returnCacheAndStartRefetch stringify c a opts cn s)) = fetches s \<or>
   (\<exists>ctl cb. callback_key cb = (cn, stringify opts) \<and>
      fetches (snd (returnCacheAndStartRefetch stringify c a opts cn s))
        = fetches s @ [new_fetch ctl a opts cb] \<and>
      (\<forall>e. lookup s cn (stringify opts) = Some e \<longrightarrow> \<not> isFetching e))"
proof -
  have k: "callback_key (ColdDone cn (stringify opts)) = (cn, stringify opts)"
    "callback_key (RefreshDone cn (stringify opts)) = (cn, stringify opts)" by simp_all
  show ?thesis
    using call_fetches_cases [of stringify c a opts cn s] k by metis
qed

lemma call_lookup_other:
  assumes "cn' \<noteq> cn \<or> k' \<noteq> stringify opts"
  shows "lookup (snd (returnCacheAndStartRefetch stringify c a opts cn s)) cn' k'
           = lookup (ensure_objects cn a s) cn' k'"
  using assms object_ensure_objects [of cn a s]
  by (auto simp: returnCacheAndStartRefetch_def Let_def lookup_store lookup_fetches_update
      split: option.splits)

lemma cachedResults_reject [simp]: "cachedResults (reject p e s) = cachedResults s"
  by (simp add: reject_def settle_promise_def)

lemma fetches_reject:
  "fetches (reject p e s) =
     (if pending s p then (fetches s)[p := (fetches s ! p)\<lparr>f_outcome := Some (Rejected e)\<rparr>]
      else fetches s)"
  by (simp add: reject_def settle_promise_def)

lemma nth_settle:
  assumes "pending s p"
  shows "f_then (fetches (settle_promise p oc s) ! q) = f_then (fetches s ! q) \<and>
         (f_outcome (fetches s ! q) \<noteq> None \<longrightarrow>
            f_outcome (fetches (settle_promise p oc s) ! q) = f_outcome (fetches s ! q)) \<and>
         (f_outcome (fetches (settle_promise p oc s) ! q) = None \<longrightarrow> f_outcome (fetches s ! q) = None)"
  using assms by (cases "p = q") (auto simp: settle_promise_def pending_def)

lemma lookup_run_then_other:
  assumes "awaiting s p \<longrightarrow> callback_key (then_of s p) \<noteq> (cn, k)"
  shows "lookup (run_then p s) cn k = lookup s cn k"
proof (cases "fulfilled s p \<and> \<not> f_called (fetches s ! p)")
  case False
  then show ?thesis by (auto simp: run_then_def)
next
  case True
  let ?t = "mark_called p s"
  have "awaiting s p"
    using True by (auto simp: awaiting_def fulfilled_def rejected_def split: option.splits outcome.splits)
  then have key: "callback_key (then_of s p) \<noteq> (cn, k)" using assms by simp
  show ?thesis
  proof (cases "then_of s p")
    case (ColdDone cn' k')
    then have ne: "cn \<noteq> cn' \<or> k \<noteq> k'" using key by auto
    show ?thesis
    proof (cases "lookup ?t cn' k'")
      case None
      then show ?thesis using True ColdDone by (simp add: run_then_def then_of_def)
    next
      case (Some e)
      have "cachedResults ?t cn' \<noteq> None" using Some by (rule lookup_Some_object)
      then show ?thesis using True ColdDone Some ne
        by (auto simp: run_then_def then_of_def lookup_store)
    qed
  next
    case (RefreshDone cn' k')
    then have ne: "cn \<noteq> cn' \<or> k \<noteq> k'" using key by auto
    show ?thesis
    proof (cases "lookup ?t cn' k'")
      case None
      then show ?thesis using True RefreshDone by (simp add: run_then_def then_of_def)
    next
      case (Some e)
      have "cachedResults ?t cn' \<noteq> None" using Some by (rule lookup_Some_object)
      then show ?thesis using True RefreshDone Some ne
        by (auto simp: run_then_def then_of_def lookup_store)
    qed
  qed
qed

lemma length_step: "length (fetches s) \<le> length (fetches (step stringify ev s))"
proof (cases ev)
  case (Call c a opts cn)
  then show ?thesis using call_fetches [of stringify c a opts cn s] by auto
qed (simp_all add: fulfil_def)

lemma nth_resolve_promise:
  "f_then (fetches (resolve_promise p r s) ! q) = f_then (fetches s ! q) \<and>
   (f_outcome (fetches s ! q) \<noteq> None \<longrightarrow>
      f_outcome (fetches (resolve_promise p r s) ! q) = f_outcome (fetches s ! q)) \<and>
   (f_outcome (fetches (resolve_promise p r s) ! q) = None \<longrightarrow> f_outcome (fetches s ! q) = None)"
proof (cases "pending s p")
  case True
  then have eq: "resolve_promise p r s = settle_promise p (Fulfilled r) s"
    by (simp add: resolve_promise_def)
  show ?thesis unfolding eq using True by (rule nth_settle)
next
  case False
  then show ?thesis by (simp add: resolve_promise_def)
qed

lemma nth_reject:
  "f_then (fetches (reject p e s) ! q) = f_then (fetches s ! q) \<and>
   (f_outcome (fetches s ! q) \<noteq> None \<longrightarrow>
      f_outcome (fetches (reject p e s) ! q) = f_outcome (fetches s ! q)) \<and>
   (f_outcome (fetches (reject p e s) ! q) = None \<longrightarrow> f_outcome (fetches s ! q) = None)"
proof (cases "pending s p")
  case True
  then have eq: "reject p e s = settle_promise p (Rejected e) s"
    by (simp add: reject_def)
  show ?thesis unfolding eq using True by (rule nth_settle)
next
  case False
  then show ?thesis by (simp add: reject_def)
qed

lemma nth_step:
  assumes "p < length (fetches s)"
  shows "f_then (fetches (step stringify ev s) ! p) = f_then (fetches s ! p) \<and>
         (f_outcome (fetches s ! p) \<noteq> None \<longrightarrow>
            f_outcome (fetches (step stringify ev s) ! p) = f_outcome (fetches s ! p)) \<and>
         (f_outcome (fetches (step stringify ev s) ! p) = None \<longrightarrow> f_outcome (fetches s ! p) = None)"
proof (cases ev)
  case (Call c a opts cn)
  then show ?thesis using assms call_fetches [of stringify c a opts cn s]
    by (auto simp: nth_append)
next
  case (Resolve q r)
  show ?thesis unfolding Resolve step.simps by (rule nth_resolve_promise)
next
  case (Then q)
  then show ?thesis by simp
next
  case (Fulfil q r)
  show ?thesis unfolding Fulfil step.simps fulfil_def outcome_run_then closure_run_then
    by (rule nth_resolve_promise)
next
  case (Reject q e)
  show ?thesis unfolding Reject step.simps by (rule nth_reject)
qed

lemma called_step:
  assumes "p < length (fetches s)" "f_called (fetches s ! p)"
  shows "f_called (fetches (step stringify ev s) ! p)"
proof (cases ev)
  case (Call c a opts cn)
  then show ?thesis using assms call_fetches [of stringify c a opts cn s]
    by (auto simp: nth_append)
next
  case (Then q)
  then show ?thesis using assms fetches_run_then [of q s]
    by (cases "q = p") (auto simp: mark_called_def nth_list_update)
next
  case (Fulfil q r)
  then show ?thesis using assms fetches_run_then [of q "resolve_promise q r s"]
    by (cases "q = p") (auto simp: mark_called_def fulfil_def nth_list_update)
qed (use assms in simp_all)

lemma called_step_other:
  assumes "p < length (fetches s)" "\<not> runs_then p ev"
  shows "f_called (fetches (step stringify ev s) ! p) = f_called (fetches s ! p)"
proof (cases ev)
  case (Call c a opts cn)
  then show ?thesis using assms call_fetches [of stringify c a opts cn s]
    by (auto simp: nth_append)
next
  case (Then q)
  then show ?thesis using assms by (simp add: called_run_then_other)
next
  case (Fulfil q r)
  then show ?thesis using assms by (simp add: fulfil_def called_run_then_other)
qed simp_all

lemma then_of_step: "p < length (fetches s) \<Longrightarrow> then_of (step stringify ev s) p = then_of s p"
  by (simp add: then_of_def nth_step)

lemma fulfilled_step: "fulfilled s p \<Longrightarrow> fulfilled (step stringify ev s) p"
  using nth_step [of p s stringify ev] length_step [of s stringify ev]
  by (auto simp: fulfilled_def split: option.splits outcome.splits)

lemma rejected_step: "rejected s p \<Longrightarrow> rejected (step stringify ev s) p"
  using nth_step [of p s stringify ev] length_step [of s stringify ev]
  by (auto simp: rejected_def split: option.splits outcome.splits)

lemma pending_step: "pending (step stringify ev s) p \<Longrightarrow> p < length (fetches s) \<Longrightarrow> pending s p"
  using nth_step [of p s stringify ev] by (simp add: pending_def)

lemma awaiting_step:
  assumes "awaiting (step stringify ev s) p" "p < length (fetches s)"
  shows "awaiting s p"
  using assms called_step [of p s stringify ev] rejected_step [of s p stringify ev]
  by (auto simp: awaiting_def)

lemma stored_ok_step: "stored_ok s cn k p \<Longrightarrow> stored_ok (step stringify ev s) cn k p"
  using length_step [of s stringify ev]
  by (auto simp: stored_ok_def then_of_step fulfilled_step)

lemma run_Nil [simp]: "run stringify [] s = s"
  by (simp add: run_def)

lemma run_Cons [simp]: "run stringify (ev # evs) s = run stringify evs (step stringify ev s)"
  by (simp add: run_def)

lemma stored_ok_run: "stored_ok s cn k p \<Longrightarrow> stored_ok (run stringify evs s) cn k p"
  by (induction evs arbitrary: s) (simp_all add: stored_ok_step)

lemma not_rejected_fulfilled: "fulfilled s p \<Longrightarrow> \<not> rejected s p"
  by (auto simp: fulfilled_def rejected_def split: option.splits outcome.splits)

lemma lookup_ensure_objects_Some:
  "lookup s cn k = Some e \<Longrightarrow> lookup (ensure_objects cn' a s) cn k = Some e"
  by (auto simp: lookup_ensure_objects)

lemma waiting_step:
  assumes w: "waiting s cn k x p" and ev: "\<not> runs_then p ev"
  shows "waiting (step stringify ev s) cn k x p"
proof -
  from w obtain e where e: "lookup s cn k = Some e" "isFetching e" "promise e = x"
    and only: "\<And>q. awaiting s q \<Longrightarrow> callback_key (then_of s q) = (cn, k) \<Longrightarrow> q = p"
    unfolding waiting_def by blast
  let ?s = "step stringify ev s"
  have old: "\<And>q. awaiting ?s q \<Longrightarrow> callback_key (then_of ?s q) = (cn, k) \<Longrightarrow>
                 q < length (fetches s) \<Longrightarrow> q = p"
    using only awaiting_step then_of_step by metis
  have same: "length (fetches ?s) = length (fetches s) \<Longrightarrow>
      (\<And>q. awaiting ?s q \<Longrightarrow> callback_key (then_of ?s q) = (cn, k) \<Longrightarrow> q = p)"
    using old by (simp add: awaiting_def)
  have free: "\<And>q. q \<noteq> p \<Longrightarrow> awaiting s q \<longrightarrow> callback_key (then_of s q) \<noteq> (cn, k)"
    using only by blast
  show ?thesis
  proof (cases ev)
    case (Call c a opts cn')
    let ?call = "returnCacheAndStartRefetch stringify c a opts cn' s"
    have s: "?s = snd ?call" using Call by simp
    have l: "lookup ?s cn k = Some e"
    proof (cases "cn = cn' \<and> k = stringify opts")
      case True
      then have "?call = (Inr (promise e), ensure_objects cn' a s)"
        using e by (simp add: call_fetching [where stringify = stringify and opts = opts])
      then show ?thesis using e(1) by (simp add: s lookup_ensure_objects_Some)
    next
      case False
      then have "lookup ?s cn k = lookup (ensure_objects cn' a s) cn k"
        unfolding s by (intro call_lookup_other) auto
      then show ?thesis using e(1) by (simp add: lookup_ensure_objects_Some)
    qed
    have new: "\<And>q. awaiting ?s q \<Longrightarrow> callback_key (then_of ?s q) = (cn, k) \<Longrightarrow>
                 \<not> q < length (fetches s) \<Longrightarrow> False"
    proof -
      fix q assume q: "awaiting ?s q" "callback_key (then_of ?s q) = (cn, k)"
        "\<not> q < length (fetches s)"
      from call_fetches [of stringify c a opts cn' s]
      show False
      proof
        assume "fetches (snd ?call) = fetches s"
        then show False using q(1,3) by (simp add: s awaiting_def)
      next
        assume "\<exists>ctl cb. callback_key cb = (cn', stringify opts) \<and>
                 fetches (snd ?call) = fetches s @ [new_fetch ctl a opts cb] \<and>
                 (\<forall>e. lookup s cn' (stringify opts) = Some e \<longrightarrow> \<not> isFetching e)"
        then obtain ctl cb where cb: "callback_key cb = (cn', stringify opts)"
          "fetches ?s = fetches s @ [new_fetch ctl a opts cb]"
          "\<forall>e. lookup s cn' (stringify opts) = Some e \<longrightarrow> \<not> isFetching e"
          unfolding s by blast
        have "q = length (fetches s)" using q(1,3) by (simp add: awaiting_def cb(2))
        then have "then_of ?s q = cb" by (simp add: then_of_def cb(2))
        then have "cn' = cn \<and> stringify opts = k" using q(2) cb(1) by simp
        then show False using cb(3) e by simp
      qed
    qed
    show ?thesis unfolding waiting_def using l e(2,3) old new by blast
  next
    case (Resolve q r)
    then have l: "lookup ?s cn k = Some e" using e(1) by simp
    have "length (fetches ?s) = length (fetches s)" using Resolve by simp
    from same [OF this] show ?thesis unfolding waiting_def using l e(2,3) by blast
  next
    case (Then q)
    then have qp: "q \<noteq> p" using ev by simp
    have l: "lookup ?s cn k = Some e"
      using e(1) Then free [OF qp] by (simp add: lookup_run_then_other)
    have "length (fetches ?s) = length (fetches s)" using Then by simp
    from same [OF this] show ?thesis unfolding waiting_def using l e(2,3) by blast
  next
    case (Fulfil q r)
    then have qp: "q \<noteq> p" using ev by simp
    have "awaiting (resolve_promise q r s) q \<longrightarrow>
            callback_key (then_of (resolve_promise q r s) q) \<noteq> (cn, k)"
      using free [OF qp] by simp
    then have l: "lookup ?s cn k = Some e"
      using e(1) Fulfil by (simp add: fulfil_def lookup_run_then_other)
    have "length (fetches ?s) = length (fetches s)" using Fulfil by (simp add: fulfil_def)
    from same [OF this] show ?thesis unfolding waiting_def using l e(2,3) by blast
  next
    case (Reject q err)
    then have l: "lookup ?s cn k = Some e" using e(1) by simp
    have "length (fetches ?s) = length (fetches s)" using Reject by simp
    from same [OF this] show ?thesis unfolding waiting_def using l e(2,3) by blast
  qed
qed

lemma waiting_run:
  "waiting s cn k x p \<Longrightarrow> \<not> list_ex (runs_then p) evs \<Longrightarrow> waiting (run stringify evs s) cn k x p"
  by (induction evs arbitrary: s) (simp_all add: waiting_step)

lemma called_run_other:
  "p < length (fetches s) \<Longrightarrow> \<not> list_ex (runs_then p) evs \<Longrightarrow>
   f_called (fetches (run stringify evs s) ! p) = f_called (fetches s ! p)"
proof (induction evs arbitrary: s)
  case Nil
  then show ?case by simp
next
  case (Cons ev evs)
  have "p < length (fetches (step stringify ev s))"
    using Cons.prems(1) length_step [of s stringify ev] by simp
  then show ?case using Cons by (simp add: called_step_other)
qed

lemma then_of_run: "p < length (fetches s) \<Longrightarrow> then_of (run stringify evs s) p = then_of s p"
proof (induction evs arbitrary: s)
  case Nil
  then show ?case by simp
next
  case (Cons ev evs)
  have "p < length (fetches (step stringify ev s))"
    using Cons.prems length_step [of s stringify ev] by simp
  then show ?case using Cons by (simp add: then_of_step)
qed

lemma refresh_call_effect:
  assumes "lookup s cn (stringify opts) = Some e"
    and "\<not> isFetching e"
    and "returnCacheAndStartRefetch stringify (Some c) a opts cn s = (res, s')"
    and "p = length (fetches s)"
  shows "res = Inr (promise e) \<and>
         fetches s' = fetches s @ [new_fetch c a opts (RefreshDone cn (stringify opts))] \<and>
         lookup s' cn (stringify opts) = Some (e\<lparr>isFetching := True\<rparr>) \<and>
         pending s' p \<and> then_of s' p = RefreshDone cn (stringify opts) \<and>
         lookup (fulfil p r s') cn (stringify opts) = Some \<lparr>isFetching = False, promise = Some p\<rparr> \<and>
         lookup (reject p err s') cn (stringify opts) = Some (e\<lparr>isFetching := True\<rparr>)"
proof -
  let ?k = "stringify opts"
  let ?s2 = "ensure_objects cn a s"
  have s': "s' = (store cn ?k (e\<lparr>isFetching := True\<rparr>) ?s2)
                   \<lparr>fetches := fetches s @ [new_fetch c a opts (RefreshDone cn ?k)]\<rparr>"
    and res: "res = Inr (promise e)"
    using assms(3)
    unfolding call_refresh [where stringify = stringify and opts = opts, OF assms(1,2)]
    by simp_all
  have ob: "cachedResults ?s2 cn \<noteq> None" by (rule object_ensure_objects)
  have f: "fetches s' = fetches s @ [new_fetch c a opts (RefreshDone cn ?k)]"
    by (simp add: s')
  have l: "lookup s' cn ?k = Some (e\<lparr>isFetching := True\<rparr>)"
    by (simp add: s' lookup_fetches_update lookup_store [OF ob])
  have pe: "pending s' p" by (simp add: pending_def f assms(4))
  have th: "then_of s' p = RefreshDone cn ?k" by (simp add: then_of_def f assms(4))
  have nc: "\<not> f_called (fetches s' ! p)" by (simp add: f assms(4) new_fetch_def)
  show ?thesis
    using res f l pe th lookup_fulfil_refresh [OF pe nc th l, of r] by simp
qed

subsection \<open>Reachable states\<close>

lemma inv_reachable: "cache_inv (run stringify evs init_state)"
  using inv_init by (rule inv_run)

lemma stored_promise_issued:
  assumes "lookup (run stringify evs init_state) cn k = Some e" "promise e = Some q"
  shows "stored_ok (run stringify evs init_state) cn k q"
proof -
  have "inv_stored (run stringify evs init_state)"
    using inv_reachable [of stringify evs] by (simp add: cache_inv_def)
  then show ?thesis using assms by (rule inv_storedD)
qed

lemma idle_key_free:
  assumes "lookup (run stringify evs init_state) cn k = Some e" "\<not> isFetching e"
    "awaiting (run stringify evs init_state) q"
  shows "callback_key (then_of (run stringify evs init_state) q) \<noteq> (cn, k)"
proof
  assume key: "callback_key (then_of (run stringify evs init_state) q) = (cn, k)"
  have "inv_pending (run stringify evs init_state)"
    using inv_reachable [of stringify evs] by (simp add: cache_inv_def)
  from awaiting_key_has_entry [OF this assms(3) key] show False using assms(1,2) by simp
qed

lemma refresh_call_waiting:
  assumes s: "s = run stringify evs init_state"
    and e: "lookup s cn (stringify opts) = Some e" "\<not> isFetching e"
    and call: "returnCacheAndStartRefetch stringify (Some c) a opts cn s = (res, s')"
    and p: "p = length (fetches s)"
  shows "waiting s' cn (stringify opts) (promise e) p"
proof -
  let ?k = "stringify opts"
  note eff = refresh_call_effect [where stringify = stringify and opts = opts and r = undefined
      and err = "Error []", OF e call p]
  have "\<And>q. awaiting s' q \<Longrightarrow> callback_key (then_of s' q) = (cn, ?k) \<Longrightarrow> q = p"
  proof (rule ccontr)
    fix q assume q: "awaiting s' q" "callback_key (then_of s' q) = (cn, ?k)" "q \<noteq> p"
    have ql: "q < length (fetches s)" using q(1,3) eff by (auto simp: awaiting_def p)
    have "awaiting (step stringify (Call (Some c) a opts cn) s) q" using q(1) call by simp
    from awaiting_step [OF this ql] have ps: "awaiting s q" .
    have "then_of s' q = then_of s q"
      using then_of_step [OF ql, of stringify "Call (Some c) a opts cn"] call by simp
    then show False
      using idle_key_free [of stringify evs cn ?k e q] e q(2) ps unfolding s by simp
  qed
  then show ?thesis unfolding waiting_def using eff by auto
qed

lemma pending_entry_fetching:
  assumes "pending (run stringify evs init_state) p"
    "callback_key (then_of (run stringify evs init_state) p) = (cn, k)"
  shows "\<exists>e. lookup (run stringify evs init_state) cn k = Some e \<and> isFetching e"
proof -
  have i: "inv_pending (run stringify evs init_state)" "inv_called (run stringify evs init_state)"
    using inv_reachable [of stringify evs] by (simp_all add: cache_inv_def)
  from awaiting_key_has_entry [OF i(1) pending_awaiting [OF i(2) assms(1)] assms(2)]
  show ?thesis .
qed

lemma call_returns_stored:
  assumes "returnCacheAndStartRefetch stringify c a opts cn s = (Inr (Some p), s')"
  shows "\<exists>e. lookup s' cn (stringify opts) = Some e \<and> promise e = Some p"
proof -
  let ?k = "stringify opts"
  let ?s2 = "ensure_objects cn a s"
  have ob: "cachedResults ?s2 cn \<noteq> None" by (rule object_ensure_objects)
  show ?thesis
  proof (cases "lookup ?s2 cn ?k")
    case None
    then show ?thesis using assms ob
      by (cases c) (auto simp: returnCacheAndStartRefetch_def Let_def lookup_store)
  next
    case (Some cache)
    then show ?thesis using assms ob
      by (cases c; cases "isFetching cache")
         (auto simp: returnCacheAndStartRefetch_def Let_def lookup_store lookup_fetches_update)
  qed
qed

subsection \<open>The guards of get\<close>

lemma get_without_block:
  "opt_fn options = None \<Longrightarrow> get env resource options s = (Inr (Resolved None), s)"
  by (simp add: get_def)

lemma get_unknown_resource:
  assumes "opt_fn options = Some fn" "RESOURCES_get resource = Undefined"
    "opt_inverse options
       ((opt_data options)\<lparr>data_error := Some (i18n_t env ''warnings.helpers.get.invalidResource'')\<rparr>)
       = Inr html"
  shows "get env resource options s = (Inr (Resolved (Some html)), s)"
  using assms by (simp add: get_def)

lemma RESOURCES_get_Undefined:
  "RESOURCES_get resource = Undefined \<longleftrightarrow>
     resource \<notin> {''posts'', ''tags'', ''pages'', ''authors''} \<and> resource \<notin> set Object_prototype"
  by (simp add: RESOURCES_get_def RESOURCES_def)

section \<open>The claims\<close>

text \<open>
  In the examples the options are given by their JSON text and \<open>stringify\<close> is the identity;
  \<^verbatim>\<open>{}\<close> is the text of the empty hash.
\<close>

text \<open>
  C1, as the code has it. In any state the cache can reach, a call for a key whose entry is
  not fetching returns the promise stored in the entry, which is not the promise of the fetch
  the call issues, and sets \<open>isFetching\<close>. When the new promise is fulfilled, it is written
  to the promise field and \<open>isFetching\<close> is cleared. When it is rejected, the entry stays as
  the call left it.
\<close>

theorem C1_refresh_returns_stale:
  assumes "s = run stringify evs init_state"
    and "lookup s cn (stringify opts) = Some e"
    and "\<not> isFetching e"
    and "returnCacheAndStartRefetch stringify (Some c) a opts cn s = (res, s')"
    and "p = length (fetches s)"
  shows "res = Inr (promise e) \<and> promise e \<noteq> Some p \<and>
         fetches s' = fetches s @ [new_fetch c a opts (RefreshDone cn (stringify opts))] \<and>
         lookup s' cn (stringify opts) = Some (e\<lparr>isFetching := True\<rparr>) \<and>
         lookup (fulfil p r s') cn (stringify opts) = Some \<lparr>isFetching = False, promise = Some p\<rparr> \<and>
         lookup (reject p err s') cn (stringify opts) = Some (e\<lparr>isFetching := True\<rparr>)"
proof -
  have "promise e \<noteq> Some p"
  proof
    assume "promise e = Some p"
    then have "stored_ok s cn (stringify opts) p"
      using assms(2) unfolding assms(1) by (rule stored_promise_issued [rotated])
    then show False by (simp add: stored_ok_def assms(5))
  qed
  then show ?thesis
    using refresh_call_effect [where stringify = stringify and opts = opts, OF assms(2-5), of r err]
    by simp
qed

theorem C1_refresh_returns_stale_witness:
  "lookup (run (\<lambda>x. x) [Call (Some ''posts'') Browse ''{}'' ''postsPublic'', Fulfil 0 7]
             (init_state :: (string, nat) state)) ''postsPublic'' ''{}''
     = Some \<lparr>isFetching = False, promise = Some 0\<rparr> \<and>
   \<not> isFetching \<lparr>isFetching = False, promise = Some 0\<rparr> \<and>
   (1::nat) = length (fetches (run (\<lambda>x. x) [Call (Some ''posts'') Browse ''{}'' ''postsPublic'', Fulfil 0 7]
             (init_state :: (string, nat) state))) \<and>
   fst (returnCacheAndStartRefetch (\<lambda>x. x) (Some ''posts'') Browse ''{}'' ''postsPublic''
          (run (\<lambda>x. x) [Call (Some ''posts'') Browse ''{}'' ''postsPublic'', Fulfil 0 7]
             (init_state :: (string, nat) state))) = Inr (Some 0) \<and>
   lookup (fulfil 1 8
             (snd (returnCacheAndStartRefetch (\<lambda>x. x) (Some ''posts'') Browse ''{}'' ''postsPublic''
                (run (\<lambda>x. x) [Call (Some ''posts'') Browse ''{}'' ''postsPublic'', Fulfil 0 7]
                   (init_state :: (string, nat) state))))) ''postsPublic'' ''{}''
     = Some \<lparr>isFetching = False, promise = Some 1\<rparr>"
  using C1_refresh_returns_stale [of
      "run (\<lambda>x. x) [Call (Some ''posts'') Browse ''{}'' ''postsPublic'', Fulfil 0 7]
         (init_state :: (string, nat) state)"
      "\<lambda>x. x" "[Call (Some ''posts'') Browse ''{}'' ''postsPublic'', Fulfil 0 7]"
      "''postsPublic''" "''{}''" "\<lparr>isFetching = False, promise = Some 0\<rparr>" "''posts''" Browse
      "fst (returnCacheAndStartRefetch (\<lambda>x. x) (Some ''posts'') Browse ''{}'' ''postsPublic''
          (run (\<lambda>x. x) [Call (Some ''posts'') Browse ''{}'' ''postsPublic'', Fulfil 0 7]
             (init_state :: (string, nat) state)))"
      "snd (returnCacheAndStartRefetch (\<lambda>x. x) (Some ''posts'') Browse ''{}'' ''postsPublic''
          (run (\<lambda>x. x) [Call (Some ''posts'') Browse ''{}'' ''postsPublic'', Fulfil 0 7]
             (init_state :: (string, nat) state)))" 1 8]
  by (simp add: run_def init_state_def returnCacheAndStartRefetch_def ensure_objects_def
      lookup_def store_def new_fetch_def empty_object_def fulfil_def resolve_promise_def run_then_def mark_called_def fulfilled_def pending_def settle_promise_def
      Let_def)

text \<open>
  C1 as stated fails: it has the promise field overwritten and \<open>isFetching\<close> cleared
  when the new fetch settles. Here the refresh (promise 1) is rejected: the entry still holds
  promise 0 and is still fetching.
\<close>

theorem C1_counterexample:
  "rejected (run (\<lambda>x. x)
      [Call (Some ''posts'') Browse ''{}'' ''postsPublic'', Fulfil 0 7,
       Call (Some ''posts'') Browse ''{}'' ''postsPublic'', Reject 1 (Error ''boom'')]
      (init_state :: (string, nat) state)) 1 \<and>
   lookup (run (\<lambda>x. x)
      [Call (Some ''posts'') Browse ''{}'' ''postsPublic'', Fulfil 0 7,
       Call (Some ''posts'') Browse ''{}'' ''postsPublic'', Reject 1 (Error ''boom'')]
      (init_state :: (string, nat) state)) ''postsPublic'' ''{}''
     = Some \<lparr>isFetching = True, promise = Some 0\<rparr>"
  by (simp add: run_def init_state_def returnCacheAndStartRefetch_def ensure_objects_def
      lookup_def store_def new_fetch_def empty_object_def fulfil_def resolve_promise_def run_then_def mark_called_def fulfilled_def reject_def pending_def
      settle_promise_def rejected_def Let_def)

text \<open>
  C2 does not hold of the code. Lines 192-194 create \<^verbatim>\<open>cachedResults[controllerName][action]\<close>,
  but the entry is read and stored at \<^verbatim>\<open>cachedResults[controllerName][stringApiOptions]\<close>
  (lines 197 and 212): the action is not part of the key. Through \<open>get\<close> the action is
  \<^verbatim>\<open>read\<close> when \<^verbatim>\<open>id\<close> or \<^verbatim>\<open>slug\<close> is truthy, and \<^verbatim>\<open>JSON.stringify\<close> leaves out a
  property whose value is a function as it leaves out one that is undefined. So a
  \<^verbatim>\<open>get\<close> of \<^verbatim>\<open>posts\<close> whose \<^verbatim>\<open>id\<close> is a function, a \<^verbatim>\<open>read\<close>, has the options text of
  the \<^verbatim>\<open>get\<close> without \<^verbatim>\<open>id\<close>, a \<^verbatim>\<open>browse\<close>: made after it, while its fetch is pending, it
  is handed the promise of the \<^verbatim>\<open>browse\<close> fetch, and no \<^verbatim>\<open>read\<close> fetch is issued.
\<close>

theorem C2_actions_share_entry:
  assumes "opt_fn o1 = Some f1" and "opt_fn o2 = Some f2"
    and "api env (property_key (data_apiVersion (opt_data o1))) = Some controllers"
    and "data_apiVersion (opt_data o2) = data_apiVersion (opt_data o1)"
    and "controllers ''postsPublic'' = Some c"
    and "opt_hash o1 = \<lparr>hash_id = JUndefined, hash_slug = JUndefined, hash_filter = JUndefined,
                        hash_others = others\<rparr>"
    and "opt_hash o2 = \<lparr>hash_id = JFunction, hash_slug = JUndefined, hash_filter = JUndefined,
                        hash_others = others\<rparr>"
    and "stringify_hash env (opt_hash o2) = stringify_hash env (opt_hash o1)"
    and "stringify_hash env (opt_hash o1) \<noteq> ''browse''"
    and "lookup s ''postsPublic'' (stringify_hash env (opt_hash o1)) = None"
  shows "isBrowse (opt_hash o1) \<and> \<not> isBrowse (opt_hash o2) \<and>
         fst (get env ''posts'' o1 s) = Inr (Chained (length (fetches s)) (opt_data o1)) \<and>
         fst (get env ''posts'' o2 (snd (get env ''posts'' o1 s)))
           = Inr (Chained (length (fetches s)) (opt_data o2)) \<and>
         map f_action (fetches (snd (get env ''posts'' o2 (snd (get env ''posts'' o1 s)))))
           = map f_action (fetches s) @ [Browse]"
proof -
  let ?k = "stringify_hash env (opt_hash o1)"
  let ?p = "length (fetches s)"
  have r: "RESOURCES_get ''posts'' = Resource ''postsPublic''"
    by (simp add: RESOURCES_get_def RESOURCES_def)
  have b: "isBrowse (opt_hash o1)" "\<not> isBrowse (opt_hash o2)"
    by (simp_all add: isBrowse_def assms(6,7))
  have po: "parseOptions (resolvePaths env) (opt_hash o1) = Inr (opt_hash o1)"
    "parseOptions (resolvePaths env) (opt_hash o2) = Inr (opt_hash o2)"
    by (simp_all add: parseOptions_def assms(6,7))
  obtain res s1 where c1: "returnCacheAndStartRefetch (stringify_hash env) (Some c) Browse
      (opt_hash o1) ''postsPublic'' s = (res, s1)"
    by (cases "returnCacheAndStartRefetch (stringify_hash env) (Some c) Browse
      (opt_hash o1) ''postsPublic'' s")
  have k: "stringify_hash env (opt_hash o1) \<noteq> action_name Browse" using assms(9) by simp
  note eff = cold_call_effect [where stringify = "stringify_hash env" and opts = "opt_hash o1"
      and r = undefined and err = Nullish, OF assms(10) k c1 refl]
  have g1: "get env ''posts'' o1 s = (Inr (Chained ?p (opt_data o1)), s1)"
    using eff by (simp add: get_def r assms(1,3,5) b po c1)
  have l1: "lookup s1 ''postsPublic'' (stringify_hash env (opt_hash o2))
              = Some \<lparr>isFetching = True, promise = Some ?p\<rparr>"
    using eff by (simp add: assms(8))
  have c2: "returnCacheAndStartRefetch (stringify_hash env) (Some c) Read (opt_hash o2)
              ''postsPublic'' s1 = (Inr (Some ?p), ensure_objects ''postsPublic'' Read s1)"
    using call_fetching [where stringify = "stringify_hash env" and opts = "opt_hash o2", OF l1]
    by simp
  have g2: "get env ''posts'' o2 s1
              = (Inr (Chained ?p (opt_data o2)), ensure_objects ''postsPublic'' Read s1)"
    by (simp add: get_def r assms(2,3,4,5) b po c2)
  show ?thesis
    using b eff by (simp add: g1 g2 fetches_ensure_objects new_fetch_def)
qed

theorem C2_actions_share_entry_witness:
  "stringify_hash \<lparr>api = [''v2'' \<mapsto> [''postsPublic'' \<mapsto> ''posts'', ''tagsPublic'' \<mapsto> ''tags'',
                        ''pagesPublic'' \<mapsto> ''pages'', ''authorsPublic'' \<mapsto> ''authors'']],
        i18n_t = (\<lambda>k. k), resolvePaths = (\<lambda>v. Inr v), stringify_hash = (\<lambda>h. ''{}''),
        slow_log = None\<rparr>
     \<lparr>hash_id = JFunction, hash_slug = JUndefined, hash_filter = JUndefined,
                    hash_others = []\<rparr> = ''{}'' \<and>
   lookup (init_state :: (hash, nat option) state) ''postsPublic'' ''{}'' = None \<and>
   fst (get
       \<lparr>api = [''v2'' \<mapsto> [''postsPublic'' \<mapsto> ''posts'', ''tagsPublic'' \<mapsto> ''tags'',
                        ''pagesPublic'' \<mapsto> ''pages'', ''authorsPublic'' \<mapsto> ''authors'']],
        i18n_t = (\<lambda>k. k), resolvePaths = (\<lambda>v. Inr v), stringify_hash = (\<lambda>h. ''{}''),
        slow_log = None\<rparr>
       ''posts''
       (\<lparr>opt_fn = Some (\<lambda>r d. Inr ''block''), opt_inverse = (\<lambda>d. Inr ''else''),
        opt_hash = \<lparr>hash_id = JUndefined, hash_slug = JUndefined, hash_filter = JUndefined,
                    hash_others = []\<rparr>,
        opt_data = \<lparr>data_error = None, data_apiVersion = Some ''v2''\<rparr>\<rparr> :: nat options)
       init_state) = Inr (Chained 0 \<lparr>data_error = None, data_apiVersion = Some ''v2''\<rparr>) \<and>
   fst (get
       \<lparr>api = [''v2'' \<mapsto> [''postsPublic'' \<mapsto> ''posts'', ''tagsPublic'' \<mapsto> ''tags'',
                        ''pagesPublic'' \<mapsto> ''pages'', ''authorsPublic'' \<mapsto> ''authors'']],
        i18n_t = (\<lambda>k. k), resolvePaths = (\<lambda>v. Inr v), stringify_hash = (\<lambda>h. ''{}''),
        slow_log = None\<rparr>
       ''posts''
       (\<lparr>opt_fn = Some (\<lambda>r d. Inr ''block''), opt_inverse = (\<lambda>d. Inr ''else''),
        opt_hash = \<lparr>hash_id = JFunction, hash_slug = JUndefined, hash_filter = JUndefined,
                    hash_others = []\<rparr>,
        opt_data = \<lparr>data_error = None, data_apiVersion = Some ''v2''\<rparr>\<rparr> :: nat options)
       (snd (get
       \<lparr>api = [''v2'' \<mapsto> [''postsPublic'' \<mapsto> ''posts'', ''tagsPublic'' \<mapsto> ''tags'',
                        ''pagesPublic'' \<mapsto> ''pages'', ''authorsPublic'' \<mapsto> ''authors'']],
        i18n_t = (\<lambda>k. k), resolvePaths = (\<lambda>v. Inr v), stringify_hash = (\<lambda>h. ''{}''),
        slow_log = None\<rparr>
       ''posts''
       (\<lparr>opt_fn = Some (\<lambda>r d. Inr ''block''), opt_inverse = (\<lambda>d. Inr ''else''),
        opt_hash = \<lparr>hash_id = JUndefined, hash_slug = JUndefined, hash_filter = JUndefined,
                    hash_others = []\<rparr>,
        opt_data = \<lparr>data_error = None, data_apiVersion = Some ''v2''\<rparr>\<rparr> :: nat options)
       init_state))) = Inr (Chained 0 \<lparr>data_error = None, data_apiVersion = Some ''v2''\<rparr>) \<and>
   map f_action (fetches (snd (get
       \<lparr>api = [''v2'' \<mapsto> [''postsPublic'' \<mapsto> ''posts'', ''tagsPublic'' \<mapsto> ''tags'',
                        ''pagesPublic'' \<mapsto> ''pages'', ''authorsPublic'' \<mapsto> ''authors'']],
        i18n_t = (\<lambda>k. k), resolvePaths = (\<lambda>v. Inr v), stringify_hash = (\<lambda>h. ''{}''),
        slow_log = None\<rparr>
       ''posts''
       (\<lparr>opt_fn = Some (\<lambda>r d. Inr ''block''), opt_inverse = (\<lambda>d. Inr ''else''),
        opt_hash = \<lparr>hash_id = JFunction, hash_slug = JUndefined, hash_filter = JUndefined,
                    hash_others = []\<rparr>,
        opt_data = \<lparr>data_error = None, data_apiVersion = Some ''v2''\<rparr>\<rparr> :: nat options)
       (snd (get
       \<lparr>api = [''v2'' \<mapsto> [''postsPublic'' \<mapsto> ''posts'', ''tagsPublic'' \<mapsto> ''tags'',
                        ''pagesPublic'' \<mapsto> ''pages'', ''authorsPublic'' \<mapsto> ''authors'']],
        i18n_t = (\<lambda>k. k), resolvePaths = (\<lambda>v. Inr v), stringify_hash = (\<lambda>h. ''{}''),
        slow_log = None\<rparr>
       ''posts''
       (\<lparr>opt_fn = Some (\<lambda>r d. Inr ''block''), opt_inverse = (\<lambda>d. Inr ''else''),
        opt_hash = \<lparr>hash_id = JUndefined, hash_slug = JUndefined, hash_filter = JUndefined,
                    hash_others = []\<rparr>,
        opt_data = \<lparr>data_error = None, data_apiVersion = Some ''v2''\<rparr>\<rparr> :: nat options)
       init_state))))) = [Browse]"
  using C2_actions_share_entry [of
      "(\<lparr>opt_fn = Some (\<lambda>r d. Inr ''block''), opt_inverse = (\<lambda>d. Inr ''else''),
        opt_hash = \<lparr>hash_id = JUndefined, hash_slug = JUndefined, hash_filter = JUndefined,
                    hash_others = []\<rparr>,
        opt_data = \<lparr>data_error = None, data_apiVersion = Some ''v2''\<rparr>\<rparr> :: nat options)" "\<lambda>r d. Inr ''block''"
      "(\<lparr>opt_fn = Some (\<lambda>r d. Inr ''block''), opt_inverse = (\<lambda>d. Inr ''else''),
        opt_hash = \<lparr>hash_id = JFunction, hash_slug = JUndefined, hash_filter = JUndefined,
                    hash_others = []\<rparr>,
        opt_data = \<lparr>data_error = None, data_apiVersion = Some ''v2''\<rparr>\<rparr> :: nat options)" "\<lambda>r d. Inr ''block''"
      "\<lparr>api = [''v2'' \<mapsto> [''postsPublic'' \<mapsto> ''posts'', ''tagsPublic'' \<mapsto> ''tags'',
                        ''pagesPublic'' \<mapsto> ''pages'', ''authorsPublic'' \<mapsto> ''authors'']],
        i18n_t = (\<lambda>k. k), resolvePaths = (\<lambda>v. Inr v), stringify_hash = (\<lambda>h. ''{}''),
        slow_log = None\<rparr>"
      "[''postsPublic'' \<mapsto> ''posts'', ''tagsPublic'' \<mapsto> ''tags'',
        ''pagesPublic'' \<mapsto> ''pages'', ''authorsPublic'' \<mapsto> ''authors'']"
      "''posts''" "[]" init_state]
  by (simp add: init_state_def lookup_def)



text \<open>
  C4, as the code has it. A call in a reachable state starts a refresh \<open>p\<close> for a key whose
  entry holds the promise \<open>promise e\<close>. Whatever calls, settlements and runs of other
  closures follow, as long as the closure of \<open>p\<close> has not run the entry keeps \<open>promise e\<close> in
  its promise field and a call for the key returns it, also when \<open>p\<close> is already fulfilled;
  and once \<open>p\<close> is fulfilled and its closure runs, the next call for the key returns \<open>p\<close>,
  which is not the promise the entry held.
\<close>

theorem C4_refreshed_after_fulfilment:
  assumes "s = run stringify evs init_state"
    and "lookup s cn (stringify opts) = Some e"
    and "\<not> isFetching e"
    and "returnCacheAndStartRefetch stringify (Some c) a opts cn s = (res, s')"
    and "p = length (fetches s)"
  shows "promise e \<noteq> Some p \<and>
         (\<not> list_ex (runs_then p) evs' \<longrightarrow>
            (\<exists>e'. lookup (run stringify evs' s') cn (stringify opts) = Some e' \<and>
                  promise e' = promise e) \<and>
            fst (returnCacheAndStartRefetch stringify c1 a1 opts cn (run stringify evs' s'))
              = Inr (promise e)) \<and>
         (\<not> list_ex (runs_then p) evs' \<and> fulfilled (run stringify evs' s') p \<longrightarrow>
            fst (returnCacheAndStartRefetch stringify (Some c2) a2 opts cn
                   (run_then p (run stringify evs' s'))) = Inr (Some p))"
proof -
  let ?k = "stringify opts"
  let ?s = "run stringify evs' s'"
  note eff = refresh_call_effect [where stringify = stringify and opts = opts and r = undefined
      and err = "Error []", OF assms(2-5)]
  note w = refresh_call_waiting [OF assms]
  have ne: "promise e \<noteq> Some p"
  proof
    assume "promise e = Some p"
    then have "stored_ok s cn ?k p"
      using assms(2) unfolding assms(1) by (rule stored_promise_issued [rotated])
    then show False by (simp add: stored_ok_def assms(5))
  qed
  have kept: "\<exists>e'. lookup ?s cn ?k = Some e' \<and> isFetching e' \<and> promise e' = promise e"
    if "\<not> list_ex (runs_then p) evs'"
    using waiting_run [OF w that, of stringify] unfolding waiting_def by blast
  have before: "fst (returnCacheAndStartRefetch stringify c1 a1 opts cn ?s) = Inr (promise e)"
    if n: "\<not> list_ex (runs_then p) evs'"
  proof -
    from kept [OF n] obtain e' where e': "lookup ?s cn ?k = Some e'" "isFetching e'"
      "promise e' = promise e" by blast
    show ?thesis
      using call_fetching [where stringify = stringify and opts = opts, OF e'(1,2), of c1 a1] e'(3)
      by simp
  qed
  have after: "fst (returnCacheAndStartRefetch stringify (Some c2) a2 opts cn (run_then p ?s))
                 = Inr (Some p)"
    if n: "\<not> list_ex (runs_then p) evs'" and f: "fulfilled ?s p"
  proof -
    from kept [OF n] obtain e' where e': "lookup ?s cn ?k = Some e'" by blast
    have pl: "p < length (fetches s')" using eff by (simp add: pending_def assms(5))
    have "\<not> f_called (fetches s' ! p)" using eff by (simp add: assms(5) new_fetch_def)
    then have nc: "\<not> f_called (fetches ?s ! p)" using pl n by (simp add: called_run_other)
    have th: "then_of ?s p = RefreshDone cn ?k" using eff pl by (simp add: then_of_run)
    have l: "lookup (run_then p ?s) cn ?k = Some (e'\<lparr>promise := Some p, isFetching := False\<rparr>)"
      using f nc th e' by (rule lookup_run_then_refresh)
    show ?thesis
      using call_refresh [where stringify = stringify and opts = opts, OF l, of c2 a2] by simp
  qed
  show ?thesis using ne kept before after by blast
qed

theorem C4_refreshed_after_fulfilment_witness:
  "lookup (run (\<lambda>x. x) [Call (Some ''posts'') Browse ''{}'' ''postsPublic'', Fulfil 0 7]
             (init_state :: (string, nat) state)) ''postsPublic'' ''{}''
     = Some \<lparr>isFetching = False, promise = Some 0\<rparr> \<and>
   \<not> isFetching \<lparr>isFetching = False, promise = Some 0\<rparr> \<and>
   (1::nat) = length (fetches (run (\<lambda>x. x) [Call (Some ''posts'') Browse ''{}'' ''postsPublic'', Fulfil 0 7]
             (init_state :: (string, nat) state))) \<and>
   \<not> list_ex (runs_then 1) ([Call (Some ''posts'') Browse ''{}'' ''postsPublic'', Resolve 1 8] :: (string, nat) event list) \<and>
   fulfilled (run (\<lambda>x. x) [Call (Some ''posts'') Browse ''{}'' ''postsPublic'', Resolve 1 8] (snd (returnCacheAndStartRefetch (\<lambda>x. x) (Some ''posts'') Browse ''{}'' ''postsPublic''
          (run (\<lambda>x. x) [Call (Some ''posts'') Browse ''{}'' ''postsPublic'', Fulfil 0 7]
             (init_state :: (string, nat) state))))) 1 \<and>
   fst (returnCacheAndStartRefetch (\<lambda>x. x) (Some ''posts'') Browse ''{}'' ''postsPublic''
          (run (\<lambda>x. x) [Call (Some ''posts'') Browse ''{}'' ''postsPublic'', Resolve 1 8] (snd (returnCacheAndStartRefetch (\<lambda>x. x) (Some ''posts'') Browse ''{}'' ''postsPublic''
          (run (\<lambda>x. x) [Call (Some ''posts'') Browse ''{}'' ''postsPublic'', Fulfil 0 7]
             (init_state :: (string, nat) state)))))) = Inr (Some 0) \<and>
   fst (returnCacheAndStartRefetch (\<lambda>x. x) (Some ''posts'') Browse ''{}'' ''postsPublic''
          (run_then 1 (run (\<lambda>x. x) [Call (Some ''posts'') Browse ''{}'' ''postsPublic'', Resolve 1 8] (snd (returnCacheAndStartRefetch (\<lambda>x. x) (Some ''posts'') Browse ''{}'' ''postsPublic''
          (run (\<lambda>x. x) [Call (Some ''posts'') Browse ''{}'' ''postsPublic'', Fulfil 0 7]
             (init_state :: (string, nat) state))))))) = Inr (Some 1)"
  using C4_refreshed_after_fulfilment [of
      "(run (\<lambda>x. x) [Call (Some ''posts'') Browse ''{}'' ''postsPublic'', Fulfil 0 7]
             (init_state :: (string, nat) state))"
      "\<lambda>x. x" "[Call (Some ''posts'') Browse ''{}'' ''postsPublic'', Fulfil 0 7]"
      "''postsPublic''" "''{}''" "\<lparr>isFetching = False, promise = Some 0\<rparr>" "''posts''" Browse
      "fst (returnCacheAndStartRefetch (\<lambda>x. x) (Some ''posts'') Browse ''{}'' ''postsPublic''
          (run (\<lambda>x. x) [Call (Some ''posts'') Browse ''{}'' ''postsPublic'', Fulfil 0 7]
             (init_state :: (string, nat) state)))"
      "snd (returnCacheAndStartRefetch (\<lambda>x. x) (Some ''posts'') Browse ''{}'' ''postsPublic''
          (run (\<lambda>x. x) [Call (Some ''posts'') Browse ''{}'' ''postsPublic'', Fulfil 0 7]
             (init_state :: (string, nat) state)))" 1 "[Call (Some ''posts'') Browse ''{}'' ''postsPublic'', Resolve 1 8]" "Some ''posts''" Browse "''posts''" Browse]
  by (simp add: init_state_def returnCacheAndStartRefetch_def ensure_objects_def
      lookup_def store_def new_fetch_def empty_object_def fulfil_def resolve_promise_def
      run_then_def mark_called_def fulfilled_def reject_def pending_def settle_promise_def
      rejected_def Let_def)

text \<open>
  C4 as stated fails twice. It has the next call return the refreshed value once the refresh
  has settled, rejection included: here the refresh (promise 1) of \<^verbatim>\<open>tagsPublic\<close> is
  rejected, and the next call returns promise 0, the old one. And the promise field is written
  by the \<^verbatim>\<open>then\<close> closure, which runs after the fulfilment: here the refresh (promise 1) of
  \<^verbatim>\<open>postsPublic\<close> is fulfilled, its closure has not run yet, and a call returns promise 0.
\<close>

theorem C4_counterexample:
  "rejected (run (\<lambda>x. x)
      [Call (Some ''tags'') Browse ''{}'' ''tagsPublic'', Fulfil 0 7,
       Call (Some ''tags'') Browse ''{}'' ''tagsPublic'', Reject 1 (Error ''unavailable'')]
      (init_state :: (string, nat) state)) 1 \<and>
   fst (returnCacheAndStartRefetch (\<lambda>x. x) (Some ''tags'') Browse ''{}'' ''tagsPublic''
     (run (\<lambda>x. x)
        [Call (Some ''tags'') Browse ''{}'' ''tagsPublic'', Fulfil 0 7,
         Call (Some ''tags'') Browse ''{}'' ''tagsPublic'', Reject 1 (Error ''unavailable'')]
        (init_state :: (string, nat) state))) = Inr (Some 0) \<and>
   fulfilled (run (\<lambda>x. x)
      [Call (Some ''posts'') Browse ''{}'' ''postsPublic'', Fulfil 0 7,
       Call (Some ''posts'') Browse ''{}'' ''postsPublic'', Resolve 1 8]
      (init_state :: (string, nat) state)) 1 \<and>
   fst (returnCacheAndStartRefetch (\<lambda>x. x) (Some ''posts'') Browse ''{}'' ''postsPublic''
     (run (\<lambda>x. x)
        [Call (Some ''posts'') Browse ''{}'' ''postsPublic'', Fulfil 0 7,
         Call (Some ''posts'') Browse ''{}'' ''postsPublic'', Resolve 1 8]
        (init_state :: (string, nat) state))) = Inr (Some 0)"
  by (simp add: init_state_def returnCacheAndStartRefetch_def ensure_objects_def
      lookup_def store_def new_fetch_def empty_object_def fulfil_def resolve_promise_def
      run_then_def mark_called_def fulfilled_def reject_def pending_def settle_promise_def
      rejected_def Let_def)

text \<open>
  C5, as the code has it. In a reachable state let \<open>p\<close> be a pending promise of a fetch for a
  key. When \<open>p\<close> is rejected the cache is not touched and no fetch is issued, so nothing
  retries; the entry of the key is still fetching, and so the next call for the key returns
  the promise stored in the entry and issues no fetch either.
\<close>

theorem C5_no_refetch_after_failure:
  assumes "s = run stringify evs init_state"
    and "pending s p"
    and "callback_key (then_of s p) = (cn, stringify opts)"
  shows "cachedResults (reject p err s) = cachedResults s \<and>
         length (fetches (reject p err s)) = length (fetches s) \<and>
         rejected (reject p err s) p \<and>
         (\<exists>e. lookup (reject p err s) cn (stringify opts) = Some e \<and> isFetching e \<and>
              fst (returnCacheAndStartRefetch stringify c a opts cn (reject p err s))
                = Inr (promise e)) \<and>
         fetches (snd (returnCacheAndStartRefetch stringify c a opts cn (reject p err s)))
           = fetches (reject p err s)"
proof -
  let ?s = "reject p err s"
  from pending_entry_fetching [of stringify evs p cn "stringify opts"] assms
  obtain e where e: "lookup s cn (stringify opts) = Some e" "isFetching e" by auto
  then have l: "lookup ?s cn (stringify opts) = Some e" by simp
  have c: "returnCacheAndStartRefetch stringify c a opts cn ?s
             = (Inr (promise e), ensure_objects cn a ?s)"
    using l e(2) by (rule call_fetching)
  have r: "rejected ?s p"
    using assms(2) by (simp add: rejected_def fetches_reject pending_def)
  show ?thesis
    using l e(2) r assms(2) by (auto simp: c fetches_ensure_objects fetches_reject)
qed

theorem C5_no_refetch_after_failure_witness:
  "pending (run (\<lambda>x. x) [Call (Some ''posts'') Browse ''{}'' ''postsPublic'']
              (init_state :: (string, nat) state)) 0 \<and>
   callback_key (then_of (run (\<lambda>x. x) [Call (Some ''posts'') Browse ''{}'' ''postsPublic'']
              (init_state :: (string, nat) state)) 0) = (''postsPublic'', ''{}'') \<and>
   fetches (snd (returnCacheAndStartRefetch (\<lambda>x. x) (Some ''posts'') Browse ''{}'' ''postsPublic''
      (reject 0 (Error ''boom'')
         (run (\<lambda>x. x) [Call (Some ''posts'') Browse ''{}'' ''postsPublic'']
              (init_state :: (string, nat) state)))))
     = fetches (reject 0 (Error ''boom'')
         (run (\<lambda>x. x) [Call (Some ''posts'') Browse ''{}'' ''postsPublic'']
              (init_state :: (string, nat) state)))"
  using C5_no_refetch_after_failure [of
      "run (\<lambda>x. x) [Call (Some ''posts'') Browse ''{}'' ''postsPublic'']
              (init_state :: (string, nat) state)"
      "\<lambda>x. x" "[Call (Some ''posts'') Browse ''{}'' ''postsPublic'']" 0 "''postsPublic''" "''{}''"
      "Error ''boom''" "Some ''posts''" Browse]
  by (simp add: init_state_def returnCacheAndStartRefetch_def ensure_objects_def
      lookup_def store_def new_fetch_def empty_object_def pending_def then_of_def Let_def)

text \<open>
  C5 as stated fails: it has the next call for the key issue a new fetch. Here the first
  fetch is rejected, one fetch has been issued, and after the next call for the key it is still
  the only one.
\<close>

theorem C5_counterexample:
  "rejected (run (\<lambda>x. x)
      [Call (Some ''authors'') Browse ''{}'' ''authorsPublic'', Reject 0 (Error ''boom'')]
      (init_state :: (string, nat) state)) 0 \<and>
   length (fetches (run (\<lambda>x. x)
      [Call (Some ''authors'') Browse ''{}'' ''authorsPublic'', Reject 0 (Error ''boom'')]
      (init_state :: (string, nat) state))) = 1 \<and>
   length (fetches (snd (returnCacheAndStartRefetch (\<lambda>x. x) (Some ''authors'') Browse ''{}''
      ''authorsPublic''
      (run (\<lambda>x. x)
         [Call (Some ''authors'') Browse ''{}'' ''authorsPublic'', Reject 0 (Error ''boom'')]
         (init_state :: (string, nat) state))))) = 1"
  by (simp add: init_state_def returnCacheAndStartRefetch_def ensure_objects_def
      lookup_def store_def new_fetch_def empty_object_def reject_def pending_def
      settle_promise_def rejected_def Let_def)

text \<open>
  C6, as the code has it. Take any promise \<open>p\<close> that a call in a reachable state returns,
  and any calls and settlements after it. If \<open>p\<close> is rejected then, the fetch of \<open>p\<close> is the
  first fetch of the key of the call: the promise of a refresh that fails is never handed
  to a caller.
\<close>

theorem C6_only_cold_failures_surface:
  assumes "s = run stringify evs init_state"
    and "returnCacheAndStartRefetch stringify c a opts cn s = (Inr (Some p), s')"
    and "rejected (run stringify evs' s') p"
  shows "then_of (run stringify evs' s') p = ColdDone cn (stringify opts)"
proof -
  let ?k = "stringify opts"
  let ?s'' = "run stringify evs' s'"
  have s': "s' = run stringify (evs @ [Call c a opts cn]) init_state"
    using assms(1,2) by (simp add: run_snoc)
  from call_returns_stored [OF assms(2)]
  obtain e where e: "lookup s' cn ?k = Some e" "promise e = Some p" by blast
  have "stored_ok s' cn ?k p"
    using e unfolding s' by (rule stored_promise_issued)
  then have ok: "stored_ok ?s'' cn ?k p" by (rule stored_ok_run)
  then have "\<not> is_refresh (then_of ?s'' p)"
    using assms(3) not_rejected_fulfilled [of ?s'' p] by (auto simp: stored_ok_def)
  moreover have "callback_key (then_of ?s'' p) = (cn, ?k)" using ok by (simp add: stored_ok_def)
  ultimately show ?thesis by (cases "then_of ?s'' p") auto
qed

theorem C6_only_cold_failures_surface_witness:
  "fst (returnCacheAndStartRefetch (\<lambda>x. x) (Some ''posts'') Read ''{}'' ''postsPublic''
          (run (\<lambda>x. x) [Call (Some ''posts'') Read ''{}'' ''postsPublic'']
             (init_state :: (string, nat) state))) = Inr (Some 0) \<and>
   rejected (run (\<lambda>x. x) [Reject 0 (Error ''boom'')]
      (snd (returnCacheAndStartRefetch (\<lambda>x. x) (Some ''posts'') Read ''{}'' ''postsPublic''
          (run (\<lambda>x. x) [Call (Some ''posts'') Read ''{}'' ''postsPublic'']
             (init_state :: (string, nat) state))))) 0 \<and>
   then_of (run (\<lambda>x. x) [Reject 0 (Error ''boom'')]
      (snd (returnCacheAndStartRefetch (\<lambda>x. x) (Some ''posts'') Read ''{}'' ''postsPublic''
          (run (\<lambda>x. x) [Call (Some ''posts'') Read ''{}'' ''postsPublic'']
             (init_state :: (string, nat) state))))) 0 = ColdDone ''postsPublic'' ''{}''"
  using C6_only_cold_failures_surface [of
      "run (\<lambda>x. x) [Call (Some ''posts'') Read ''{}'' ''postsPublic'']
             (init_state :: (string, nat) state)"
      "\<lambda>x. x" "[Call (Some ''posts'') Read ''{}'' ''postsPublic'']"
      "Some ''posts''" Read "''{}''" "''postsPublic''" 0
      "snd (returnCacheAndStartRefetch (\<lambda>x. x) (Some ''posts'') Read ''{}'' ''postsPublic''
          (run (\<lambda>x. x) [Call (Some ''posts'') Read ''{}'' ''postsPublic'']
             (init_state :: (string, nat) state)))"
      "[Reject 0 (Error ''boom'')]"]
  by (simp add: init_state_def returnCacheAndStartRefetch_def ensure_objects_def
      lookup_def store_def new_fetch_def empty_object_def reject_def pending_def
      settle_promise_def rejected_def Let_def)

text \<open>
  C6 as stated fails: it has a failure reach only the caller who triggered the first fetch.
  Here a second call for the key, made while the first fetch is pending, issues no fetch and
  leaves the state as it is, and the promise it returns is the one that is then rejected.
\<close>

theorem C6_counterexample:
  "length (fetches (run (\<lambda>x. x) [Call (Some ''pages'') Browse ''{}'' ''pagesPublic'']
      (init_state :: (string, nat) state))) = 1 \<and>
   returnCacheAndStartRefetch (\<lambda>x. x) (Some ''pages'') Browse ''{}'' ''pagesPublic''
      (run (\<lambda>x. x) [Call (Some ''pages'') Browse ''{}'' ''pagesPublic'']
         (init_state :: (string, nat) state))
     = (Inr (Some 0),
        run (\<lambda>x. x) [Call (Some ''pages'') Browse ''{}'' ''pagesPublic'']
         (init_state :: (string, nat) state)) \<and>
   rejected (reject 0 (Error ''boom'')
      (run (\<lambda>x. x) [Call (Some ''pages'') Browse ''{}'' ''pagesPublic'']
         (init_state :: (string, nat) state))) 0"
  by (simp add: init_state_def returnCacheAndStartRefetch_def ensure_objects_def
      lookup_def store_def new_fetch_def empty_object_def reject_def pending_def
      settle_promise_def rejected_def Let_def)

text \<open>
  C7, as the code has it. In every reachable state two pending promises never belong to the
  same key; a call for a key whose entry is fetching returns the promise field of the entry
  and issues no fetch; and while a promise \<open>p\<close> is pending for a key, the entry of the key is
  fetching and its promise field holds a fulfilled promise (or none) if \<open>p\<close> is a refresh, and
  \<open>p\<close> itself if \<open>p\<close> is the first fetch of the key.
\<close>

theorem C7_one_fetch_in_flight:
  assumes "s = run stringify evs init_state"
  shows "(pending s p \<and> pending s q \<and>
            callback_key (then_of s p) = callback_key (then_of s q) \<longrightarrow> p = q) \<and>
         (lookup s cn (stringify opts) = Some e \<and> isFetching e \<longrightarrow>
            fst (returnCacheAndStartRefetch stringify c a opts cn s) = Inr (promise e) \<and>
            fetches (snd (returnCacheAndStartRefetch stringify c a opts cn s)) = fetches s) \<and>
         (pending s p \<and> callback_key (then_of s p) = (cn, stringify opts) \<longrightarrow>
            (\<exists>e'. lookup s cn (stringify opts) = Some e' \<and> isFetching e' \<and>
               (if is_refresh (then_of s p)
                then \<forall>x. promise e' = Some x \<longrightarrow> fulfilled s x
                else promise e' = Some p)))"
proof (intro conjI impI)
  have inv: "cache_inv s" unfolding assms by (rule inv_reachable)
  then have i: "inv_pending s" "inv_unique s" "inv_called s" by (simp_all add: cache_inv_def)
  {
    assume a: "pending s p \<and> pending s q \<and>
               callback_key (then_of s p) = callback_key (then_of s q)"
    then have "awaiting s p" "awaiting s q" using pending_awaiting [OF i(3)] by simp_all
    then show "p = q" using a inv_uniqueD [OF i(2), of p q] by simp
  }
  {
    assume a: "lookup s cn (stringify opts) = Some e \<and> isFetching e"
    then have c: "returnCacheAndStartRefetch stringify c a opts cn s
                    = (Inr (promise e), ensure_objects cn a s)"
      by (simp add: call_fetching [where stringify = stringify and opts = opts])
    show "fst (returnCacheAndStartRefetch stringify c a opts cn s) = Inr (promise e)"
      by (simp add: c)
    show "fetches (snd (returnCacheAndStartRefetch stringify c a opts cn s)) = fetches s"
      by (simp add: c fetches_ensure_objects)
  }
  {
    assume a: "pending s p \<and> callback_key (then_of s p) = (cn, stringify opts)"
    then have aw: "awaiting s p" using pending_awaiting [OF i(3)] by simp
    from a have "entry_of s p = lookup s cn (stringify opts)" by (simp add: entry_of_def)
    then show "\<exists>e'. lookup s cn (stringify opts) = Some e' \<and> isFetching e' \<and>
               (if is_refresh (then_of s p)
                then \<forall>x. promise e' = Some x \<longrightarrow> fulfilled s x
                else promise e' = Some p)"
      using inv_pendingD [OF i(1) aw] by simp
  }
qed

theorem C7_one_fetch_in_flight_witness:
  "pending (run (\<lambda>x. x) [Call (Some ''posts'') Browse ''{}'' ''postsPublic'', Fulfil 0 7,
          Call (Some ''posts'') Browse ''{}'' ''postsPublic'']
        (init_state :: (string, nat) state)) 1 \<and>
   callback_key (then_of (run (\<lambda>x. x) [Call (Some ''posts'') Browse ''{}'' ''postsPublic'', Fulfil 0 7,
          Call (Some ''posts'') Browse ''{}'' ''postsPublic'']
        (init_state :: (string, nat) state)) 1) = (''postsPublic'', ''{}'') \<and>
   is_refresh (then_of (run (\<lambda>x. x) [Call (Some ''posts'') Browse ''{}'' ''postsPublic'', Fulfil 0 7,
          Call (Some ''posts'') Browse ''{}'' ''postsPublic'']
        (init_state :: (string, nat) state)) 1) \<and>
   lookup (run (\<lambda>x. x) [Call (Some ''posts'') Browse ''{}'' ''postsPublic'', Fulfil 0 7,
          Call (Some ''posts'') Browse ''{}'' ''postsPublic'']
        (init_state :: (string, nat) state)) ''postsPublic'' ''{}'' = Some \<lparr>isFetching = True, promise = Some 0\<rparr> \<and>
   isFetching \<lparr>isFetching = True, promise = Some 0\<rparr> \<and>
   fulfilled (run (\<lambda>x. x) [Call (Some ''posts'') Browse ''{}'' ''postsPublic'', Fulfil 0 7,
          Call (Some ''posts'') Browse ''{}'' ''postsPublic'']
        (init_state :: (string, nat) state)) 0 \<and>
   returnCacheAndStartRefetch (\<lambda>x. x) (Some ''posts'') Browse ''{}'' ''postsPublic'' (run (\<lambda>x. x) [Call (Some ''posts'') Browse ''{}'' ''postsPublic'', Fulfil 0 7,
          Call (Some ''posts'') Browse ''{}'' ''postsPublic'']
        (init_state :: (string, nat) state))
     = (Inr (Some 0), (run (\<lambda>x. x) [Call (Some ''posts'') Browse ''{}'' ''postsPublic'', Fulfil 0 7,
          Call (Some ''posts'') Browse ''{}'' ''postsPublic'']
        (init_state :: (string, nat) state)))"
  using C7_one_fetch_in_flight [of
      "(run (\<lambda>x. x) [Call (Some ''posts'') Browse ''{}'' ''postsPublic'', Fulfil 0 7,
          Call (Some ''posts'') Browse ''{}'' ''postsPublic'']
        (init_state :: (string, nat) state))" "\<lambda>x. x"
      "[Call (Some ''posts'') Browse ''{}'' ''postsPublic'', Fulfil 0 7,
        Call (Some ''posts'') Browse ''{}'' ''postsPublic'']"
      1 1 "''postsPublic''" "''{}''" "\<lparr>isFetching = True, promise = Some 0\<rparr>"
      "Some ''posts''" Browse]
  by (simp add: init_state_def returnCacheAndStartRefetch_def ensure_objects_def
      lookup_def store_def new_fetch_def empty_object_def fulfil_def resolve_promise_def run_then_def mark_called_def fulfilled_def pending_def then_of_def
      fulfilled_def settle_promise_def Let_def)

text \<open>
  C7 as stated fails where it says that the promise field reused during a fetch holds the
  previous resolved value: while the first fetch of a key is pending, the field holds the
  promise of that very fetch, which is not settled.
\<close>

theorem C7_counterexample:
  "lookup (run (\<lambda>x. x) [Call (Some ''posts'') Browse ''{}'' ''postsPublic'']
             (init_state :: (string, nat) state)) ''postsPublic'' ''{}''
     = Some \<lparr>isFetching = True, promise = Some 0\<rparr> \<and>
   pending (run (\<lambda>x. x) [Call (Some ''posts'') Browse ''{}'' ''postsPublic'']
              (init_state :: (string, nat) state)) 0 \<and>
   \<not> fulfilled (run (\<lambda>x. x) [Call (Some ''posts'') Browse ''{}'' ''postsPublic'']
              (init_state :: (string, nat) state)) 0"
  by (simp add: init_state_def returnCacheAndStartRefetch_def ensure_objects_def
      lookup_def store_def new_fetch_def empty_object_def pending_def fulfilled_def Let_def)




text \<open>
  C9, as the code has it. Let \<open>get\<close> return a promise, and let neither the rendering of the
  inverse block nor the handler of \<^verbatim>\<open>.finally\<close> throw. Then the promise is rejected only
  when what \<^verbatim>\<open>.catch\<close> receives is \<^verbatim>\<open>null\<close> or \<^verbatim>\<open>undefined\<close>, so that reading its
  message throws. Any other error is caught: when the fetch is rejected with an error \<open>err\<close>,
  or the success handler throws \<open>err\<close>, reading an undefined result or in the block function,
  the promise is fulfilled with the inverse block rendered on the frame whose \<open>error\<close> is the
  message of \<open>err\<close>.
\<close>

theorem C9_get_catches:
  assumes "get env resource options s = (Inr pr, s')"
    and "slow_log env = None"
    and "\<forall>d. \<exists>html. opt_inverse options d = Inr html"
  shows "(\<forall>x. settle_get env options pr oc = Rejected x \<longrightarrow>
            x = TypeError \<and> (\<exists>p dat. pr = Chained p dat \<and>
                                 then_success options dat oc = Rejected Nullish)) \<and>
         (\<forall>p dat m.
            pr = Chained p dat \<and>
            (oc = Rejected (Error m) \<or>
             (oc = Fulfilled None \<and> Error m = TypeError) \<or>
             (\<exists>r fn. oc = Fulfilled (Some r) \<and> opt_fn options = Some fn \<and>
                     fn r dat = Inl (Error m))) \<longrightarrow>
            (\<exists>html. opt_inverse options (dat\<lparr>data_error := Some m\<rparr>) = Inr html \<and>
                    settle_get env options pr oc = Fulfilled (Some html)))"
proof -
  have inv: "\<And>d. \<exists>html. opt_inverse options d = Inr html" using assms(3) by blast
  have one: "x = TypeError \<and> (\<exists>p dat. pr = Chained p dat \<and>
                                 then_success options dat oc = Rejected Nullish)"
    if rej: "settle_get env options pr oc = Rejected x" for x
  proof (cases pr)
    case (Resolved v)
    then show ?thesis using rej by (simp add: settle_get_def)
  next
    case (Chained p dat)
    show ?thesis
    proof (cases "then_success options dat oc")
      case (Fulfilled html)
      then show ?thesis using Chained rej assms(2)
        by (simp add: settle_get_def catch_error_def finally_log_def)
    next
      case (Rejected e)
      show ?thesis
      proof (cases e)
        case (Error m)
        from inv [of "dat\<lparr>data_error := Some m\<rparr>"] obtain html
          where "opt_inverse options (dat\<lparr>data_error := Some m\<rparr>) = Inr html" ..
        then show ?thesis using Chained Rejected Error rej assms(2)
          by (simp add: settle_get_def catch_error_def finally_log_def)
      next
        case Nullish
        then show ?thesis using Chained Rejected rej assms(2)
          by (simp add: settle_get_def catch_error_def finally_log_def)
      qed
    qed
  qed
  have two: "\<exists>html. opt_inverse options (dat\<lparr>data_error := Some m\<rparr>) = Inr html \<and>
                    settle_get env options pr oc = Fulfilled (Some html)"
    if a: "pr = Chained p dat \<and>
            (oc = Rejected (Error m) \<or>
             (oc = Fulfilled None \<and> Error m = TypeError) \<or>
             (\<exists>r fn. oc = Fulfilled (Some r) \<and> opt_fn options = Some fn \<and>
                     fn r dat = Inl (Error m)))" for p dat m
  proof -
  from a have "then_success options dat oc = Rejected (Error m)"
    by (auto simp: then_success_def)
  moreover from inv [of "dat\<lparr>data_error := Some m\<rparr>"] obtain html
    where h: "opt_inverse options (dat\<lparr>data_error := Some m\<rparr>) = Inr html" ..
  ultimately have "settle_get env options pr oc = Fulfilled (Some html)"
    using a assms(2) by (simp add: settle_get_def catch_error_def finally_log_def)
  with h show ?thesis by blast
  qed
  show ?thesis using one two by blast
qed

theorem C9_get_catches_witness:
  "fst (get
       \<lparr>api = [''v2'' \<mapsto> [''postsPublic'' \<mapsto> ''posts'', ''tagsPublic'' \<mapsto> ''tags'',
                        ''pagesPublic'' \<mapsto> ''pages'', ''authorsPublic'' \<mapsto> ''authors'']],
        i18n_t = (\<lambda>k. k), resolvePaths = (\<lambda>v. Inr v), stringify_hash = (\<lambda>h. ''{}''),
        slow_log = None\<rparr>
       ''posts''
       (\<lparr>opt_fn = Some (\<lambda>r d. Inr ''block''),
        opt_inverse = (\<lambda>d. Inr (case data_error d of None \<Rightarrow> ''else'' | Some m \<Rightarrow> m)),
        opt_hash = \<lparr>hash_id = JUndefined, hash_slug = JUndefined, hash_filter = JUndefined,
                    hash_others = []\<rparr>,
        opt_data = \<lparr>data_error = None, data_apiVersion = Some ''v2''\<rparr>\<rparr> :: nat options)
       init_state) = Inr (Chained 0 \<lparr>data_error = None, data_apiVersion = Some ''v2''\<rparr>) \<and>
   slow_log \<lparr>api = [''v2'' \<mapsto> [''postsPublic'' \<mapsto> ''posts'', ''tagsPublic'' \<mapsto> ''tags'',
                        ''pagesPublic'' \<mapsto> ''pages'', ''authorsPublic'' \<mapsto> ''authors'']],
        i18n_t = (\<lambda>k. k), resolvePaths = (\<lambda>v. Inr v), stringify_hash = (\<lambda>h. ''{}''),
        slow_log = None\<rparr> = None \<and>
   (\<forall>d. \<exists>html. opt_inverse (\<lparr>opt_fn = Some (\<lambda>r d. Inr ''block''),
        opt_inverse = (\<lambda>d. Inr (case data_error d of None \<Rightarrow> ''else'' | Some m \<Rightarrow> m)),
        opt_hash = \<lparr>hash_id = JUndefined, hash_slug = JUndefined, hash_filter = JUndefined,
                    hash_others = []\<rparr>,
        opt_data = \<lparr>data_error = None, data_apiVersion = Some ''v2''\<rparr>\<rparr> :: nat options) d = Inr html) \<and>
   settle_get \<lparr>api = [''v2'' \<mapsto> [''postsPublic'' \<mapsto> ''posts'', ''tagsPublic'' \<mapsto> ''tags'',
                        ''pagesPublic'' \<mapsto> ''pages'', ''authorsPublic'' \<mapsto> ''authors'']],
        i18n_t = (\<lambda>k. k), resolvePaths = (\<lambda>v. Inr v), stringify_hash = (\<lambda>h. ''{}''),
        slow_log = None\<rparr>
     (\<lparr>opt_fn = Some (\<lambda>r d. Inr ''block''),
        opt_inverse = (\<lambda>d. Inr (case data_error d of None \<Rightarrow> ''else'' | Some m \<Rightarrow> m)),
        opt_hash = \<lparr>hash_id = JUndefined, hash_slug = JUndefined, hash_filter = JUndefined,
                    hash_others = []\<rparr>,
        opt_data = \<lparr>data_error = None, data_apiVersion = Some ''v2''\<rparr>\<rparr> :: nat options)
     (Chained 0 \<lparr>data_error = None, data_apiVersion = Some ''v2''\<rparr>) (Rejected (Error ''api down''))
     = Fulfilled (Some ''api down'')"
  using C9_get_catches [of
      "\<lparr>api = [''v2'' \<mapsto> [''postsPublic'' \<mapsto> ''posts'', ''tagsPublic'' \<mapsto> ''tags'',
                        ''pagesPublic'' \<mapsto> ''pages'', ''authorsPublic'' \<mapsto> ''authors'']],
        i18n_t = (\<lambda>k. k), resolvePaths = (\<lambda>v. Inr v), stringify_hash = (\<lambda>h. ''{}''),
        slow_log = None\<rparr>"
      "''posts''"
      "(\<lparr>opt_fn = Some (\<lambda>r d. Inr ''block''),
        opt_inverse = (\<lambda>d. Inr (case data_error d of None \<Rightarrow> ''else'' | Some m \<Rightarrow> m)),
        opt_hash = \<lparr>hash_id = JUndefined, hash_slug = JUndefined, hash_filter = JUndefined,
                    hash_others = []\<rparr>,
        opt_data = \<lparr>data_error = None, data_apiVersion = Some ''v2''\<rparr>\<rparr> :: nat options)"
      init_state
      "Chained 0 \<lparr>data_error = None, data_apiVersion = Some ''v2''\<rparr>"
      "snd (get
       \<lparr>api = [''v2'' \<mapsto> [''postsPublic'' \<mapsto> ''posts'', ''tagsPublic'' \<mapsto> ''tags'',
                        ''pagesPublic'' \<mapsto> ''pages'', ''authorsPublic'' \<mapsto> ''authors'']],
        i18n_t = (\<lambda>k. k), resolvePaths = (\<lambda>v. Inr v), stringify_hash = (\<lambda>h. ''{}''),
        slow_log = None\<rparr>
       ''posts''
       (\<lparr>opt_fn = Some (\<lambda>r d. Inr ''block''),
        opt_inverse = (\<lambda>d. Inr (case data_error d of None \<Rightarrow> ''else'' | Some m \<Rightarrow> m)),
        opt_hash = \<lparr>hash_id = JUndefined, hash_slug = JUndefined, hash_filter = JUndefined,
                    hash_others = []\<rparr>,
        opt_data = \<lparr>data_error = None, data_apiVersion = Some ''v2''\<rparr>\<rparr> :: nat options)
       init_state)"
      "Rejected (Error ''api down'')"]
  by (simp add: get_def RESOURCES_get_def RESOURCES_def Object_prototype_def isBrowse_def
      parseOptions_def init_state_def returnCacheAndStartRefetch_def ensure_objects_def
      lookup_def store_def new_fetch_def empty_object_def settle_get_def catch_error_def
      then_success_def finally_log_def TypeError_def Let_def)

text \<open>
  C9 as stated fails: it has every error caught and the promise never rejected, for every
  input. With the fetch rejected, the promise of \<open>get\<close> is rejected when rendering the
  inverse block throws, which nothing after \<^verbatim>\<open>.catch\<close> catches; it is rejected when the fetch
  is rejected with \<^verbatim>\<open>undefined\<close>, since reading \<^verbatim>\<open>err.message\<close> throws; with the fetch
  fulfilled and the block rendered, it is rejected when the handler of \<^verbatim>\<open>.finally\<close> throws;
  and when \<^verbatim>\<open>root._locals.apiVersion\<close> is undefined, line 136 throws before any promise
  exists, and \<open>get\<close> returns none.
\<close>

theorem C9_counterexample:
  "settle_get \<lparr>api = [''v2'' \<mapsto> [''postsPublic'' \<mapsto> ''posts'', ''tagsPublic'' \<mapsto> ''tags'',
                        ''pagesPublic'' \<mapsto> ''pages'', ''authorsPublic'' \<mapsto> ''authors'']],
        i18n_t = (\<lambda>k. k), resolvePaths = (\<lambda>v. Inr v), stringify_hash = (\<lambda>h. ''{}''),
        slow_log = None\<rparr>
     (\<lparr>opt_fn = Some (\<lambda>r d. Inr ''block''),
        opt_inverse = (\<lambda>d. Inl (Error ''inverse failed'')),
        opt_hash = \<lparr>hash_id = JUndefined, hash_slug = JUndefined, hash_filter = JUndefined,
                    hash_others = []\<rparr>,
        opt_data = \<lparr>data_error = None, data_apiVersion = Some ''v2''\<rparr>\<rparr> :: nat options)
     (Chained 0 \<lparr>data_error = None, data_apiVersion = Some ''v2''\<rparr>) (Rejected (Error ''api down''))
     = Rejected (Error ''inverse failed'') \<and>
   settle_get \<lparr>api = [''v2'' \<mapsto> [''postsPublic'' \<mapsto> ''posts'', ''tagsPublic'' \<mapsto> ''tags'',
                        ''pagesPublic'' \<mapsto> ''pages'', ''authorsPublic'' \<mapsto> ''authors'']],
        i18n_t = (\<lambda>k. k), resolvePaths = (\<lambda>v. Inr v), stringify_hash = (\<lambda>h. ''{}''),
        slow_log = None\<rparr>
     (\<lparr>opt_fn = Some (\<lambda>r d. Inr ''block''),
        opt_inverse = (\<lambda>d. Inr (case data_error d of None \<Rightarrow> ''else'' | Some m \<Rightarrow> m)),
        opt_hash = \<lparr>hash_id = JUndefined, hash_slug = JUndefined, hash_filter = JUndefined,
                    hash_others = []\<rparr>,
        opt_data = \<lparr>data_error = None, data_apiVersion = Some ''v2''\<rparr>\<rparr> :: nat options)
     (Chained 0 \<lparr>data_error = None, data_apiVersion = Some ''v2''\<rparr>) (Rejected Nullish)
     = Rejected TypeError \<and>
   settle_get \<lparr>api = [''v2'' \<mapsto> [''postsPublic'' \<mapsto> ''posts'', ''tagsPublic'' \<mapsto> ''tags'',
                        ''pagesPublic'' \<mapsto> ''pages'', ''authorsPublic'' \<mapsto> ''authors'']],
        i18n_t = (\<lambda>k. k), resolvePaths = (\<lambda>v. Inr v), stringify_hash = (\<lambda>h. ''{}''),
        slow_log = Some (Error ''logging[logLevel] is not a function'')\<rparr>
     (\<lparr>opt_fn = Some (\<lambda>r d. Inr ''block''),
        opt_inverse = (\<lambda>d. Inr (case data_error d of None \<Rightarrow> ''else'' | Some m \<Rightarrow> m)),
        opt_hash = \<lparr>hash_id = JUndefined, hash_slug = JUndefined, hash_filter = JUndefined,
                    hash_others = []\<rparr>,
        opt_data = \<lparr>data_error = None, data_apiVersion = Some ''v2''\<rparr>\<rparr> :: nat options)
     (Chained 0 \<lparr>data_error = None, data_apiVersion = Some ''v2''\<rparr>) (Fulfilled (Some 7))
     = Rejected (Error ''logging[logLevel] is not a function'') \<and>
   fst (get
       \<lparr>api = [''v2'' \<mapsto> [''postsPublic'' \<mapsto> ''posts'', ''tagsPublic'' \<mapsto> ''tags'',
                        ''pagesPublic'' \<mapsto> ''pages'', ''authorsPublic'' \<mapsto> ''authors'']],
        i18n_t = (\<lambda>k. k), resolvePaths = (\<lambda>v. Inr v), stringify_hash = (\<lambda>h. ''{}''),
        slow_log = None\<rparr>
       ''posts''
       (\<lparr>opt_fn = Some (\<lambda>r d. Inr ''block''),
        opt_inverse = (\<lambda>d. Inl (Error ''inverse failed'')),
        opt_hash = \<lparr>hash_id = JUndefined, hash_slug = JUndefined, hash_filter = JUndefined,
                    hash_others = []\<rparr>,
        opt_data = \<lparr>data_error = None, data_apiVersion = Some ''v2''\<rparr>\<rparr> :: nat options)
       init_state) = Inr (Chained 0 \<lparr>data_error = None, data_apiVersion = Some ''v2''\<rparr>) \<and>
   fst (get
       \<lparr>api = [''v2'' \<mapsto> [''postsPublic'' \<mapsto> ''posts'', ''tagsPublic'' \<mapsto> ''tags'',
                        ''pagesPublic'' \<mapsto> ''pages'', ''authorsPublic'' \<mapsto> ''authors'']],
        i18n_t = (\<lambda>k. k), resolvePaths = (\<lambda>v. Inr v), stringify_hash = (\<lambda>h. ''{}''),
        slow_log = Some (Error ''logging[logLevel] is not a function'')\<rparr>
       ''posts''
       (\<lparr>opt_fn = Some (\<lambda>r d. Inr ''block''),
        opt_inverse = (\<lambda>d. Inr (case data_error d of None \<Rightarrow> ''else'' | Some m \<Rightarrow> m)),
        opt_hash = \<lparr>hash_id = JUndefined, hash_slug = JUndefined, hash_filter = JUndefined,
                    hash_others = []\<rparr>,
        opt_data = \<lparr>data_error = None, data_apiVersion = Some ''v2''\<rparr>\<rparr> :: nat options)
       init_state) = Inr (Chained 0 \<lparr>data_error = None, data_apiVersion = Some ''v2''\<rparr>) \<and>
   fst (get
       \<lparr>api = [''v2'' \<mapsto> [''postsPublic'' \<mapsto> ''posts'', ''tagsPublic'' \<mapsto> ''tags'',
                        ''pagesPublic'' \<mapsto> ''pages'', ''authorsPublic'' \<mapsto> ''authors'']],
        i18n_t = (\<lambda>k. k), resolvePaths = (\<lambda>v. Inr v), stringify_hash = (\<lambda>h. ''{}''),
        slow_log = None\<rparr>
       ''posts''
       (\<lparr>opt_fn = Some (\<lambda>r d. Inr ''block''),
        opt_inverse = (\<lambda>d. Inr (case data_error d of None \<Rightarrow> ''else'' | Some m \<Rightarrow> m)),
        opt_hash = \<lparr>hash_id = JUndefined, hash_slug = JUndefined, hash_filter = JUndefined,
                    hash_others = []\<rparr>,
        opt_data = \<lparr>data_error = None, data_apiVersion = None\<rparr>\<rparr> :: nat options)
       init_state) = Inl TypeError"
  by (simp add: get_def RESOURCES_get_def RESOURCES_def Object_prototype_def isBrowse_def
      parseOptions_def init_state_def returnCacheAndStartRefetch_def ensure_objects_def
      lookup_def store_def new_fetch_def empty_object_def settle_get_def catch_error_def
      then_success_def finally_log_def TypeError_def Let_def)

text \<open>
  C10 does not hold of the code for a resource name that \<open>RESOURCES\<close> inherits from
  \<^verbatim>\<open>Object.prototype\<close>. \<^verbatim>\<open>constructor\<close> is none of the four resources, yet
  \<^verbatim>\<open>RESOURCES['constructor']\<close> is truthy and passes the guard of line 129; the alias and the
  controller are undefined, \<open>returnCacheAndStartRefetch\<close> creates
  \<^verbatim>\<open>cachedResults['undefined']\<close> and \<^verbatim>\<open>cachedResults['undefined']['browse']\<close>, and the call
  of the undefined controller throws. For a call without a block function, and for a name
  that is no property of \<open>RESOURCES\<close> at all, \<open>get_without_block\<close> and
  \<open>get_unknown_resource\<close> show what the claim says.
\<close>

theorem C10_inherited_resource_name:
  "''constructor'' \<notin> set (map fst RESOURCES) \<and>
   fst (get
       \<lparr>api = [''v2'' \<mapsto> [''postsPublic'' \<mapsto> ''posts'', ''tagsPublic'' \<mapsto> ''tags'',
                        ''pagesPublic'' \<mapsto> ''pages'', ''authorsPublic'' \<mapsto> ''authors'']],
        i18n_t = (\<lambda>k. k), resolvePaths = (\<lambda>v. Inr v), stringify_hash = (\<lambda>h. ''{}''),
        slow_log = None\<rparr>
       ''constructor''
       (\<lparr>opt_fn = Some (\<lambda>r d. Inr ''block''),
        opt_inverse = (\<lambda>d. Inr (case data_error d of None \<Rightarrow> ''else'' | Some m \<Rightarrow> m)),
        opt_hash = \<lparr>hash_id = JUndefined, hash_slug = JUndefined, hash_filter = JUndefined,
                    hash_others = []\<rparr>,
        opt_data = \<lparr>data_error = None, data_apiVersion = Some ''v2''\<rparr>\<rparr> :: nat options)
       init_state) = Inl TypeError \<and>
   lookup (snd (get
       \<lparr>api = [''v2'' \<mapsto> [''postsPublic'' \<mapsto> ''posts'', ''tagsPublic'' \<mapsto> ''tags'',
                        ''pagesPublic'' \<mapsto> ''pages'', ''authorsPublic'' \<mapsto> ''authors'']],
        i18n_t = (\<lambda>k. k), resolvePaths = (\<lambda>v. Inr v), stringify_hash = (\<lambda>h. ''{}''),
        slow_log = None\<rparr>
       ''constructor''
       (\<lparr>opt_fn = Some (\<lambda>r d. Inr ''block''),
        opt_inverse = (\<lambda>d. Inr (case data_error d of None \<Rightarrow> ''else'' | Some m \<Rightarrow> m)),
        opt_hash = \<lparr>hash_id = JUndefined, hash_slug = JUndefined, hash_filter = JUndefined,
                    hash_others = []\<rparr>,
        opt_data = \<lparr>data_error = None, data_apiVersion = Some ''v2''\<rparr>\<rparr> :: nat options)
       init_state)) ''undefined'' ''browse'' = Some empty_object"
  by (simp add: get_def RESOURCES_get_def RESOURCES_def Object_prototype_def isBrowse_def
      parseOptions_def init_state_def returnCacheAndStartRefetch_def ensure_objects_def
      lookup_def store_def new_fetch_def empty_object_def settle_get_def catch_error_def
      then_success_def Let_def)

end
